theory Spec2Isabelle
  imports Main "HOL-Library.Word"
begin

unbundle bit_operations_syntax

section \<open>Data model of \<^verbatim>\<open>seekpro.py\<close>\<close>

text \<open>
  Bytes arriving over USB are 8-bit words, the samples of a frame are 16-bit unsigned
  words (numpy's \<^verbatim>\<open>uint16\<close>, whose arithmetic wraps modulo \<open>2 ^ 16\<close>), and a
  two-dimensional numpy array is a list of rows.
\<close>

type_synonym byte = "8 word"
type_synonym sample = "16 word"
type_synonym grid = "sample list list"

text \<open>The exceptions the program can raise, as values.\<close>

datatype error =
    IOError          \<comment> \<open>\<^verbatim>\<open>raise IOError('Device not found')\<close>\<close>
  | USBError         \<comment> \<open>raised by pyusb: timeout, overflow, stall\<close>
  | AssertionError   \<comment> \<open>the \<^verbatim>\<open>assert\<close> of \<^verbatim>\<open>send_msg\<close>\<close>
  | IndexError       \<comment> \<open>an index out of range\<close>
  | TypeError        \<comment> \<open>subscripting or buffering \<^verbatim>\<open>None\<close>\<close>
  | ValueError       \<comment> \<open>a buffer or shape of the wrong size\<close>
  | AttributeError   \<comment> \<open>reading an attribute that was never assigned\<close>

definition WIDTH :: nat where "WIDTH = 320"
definition HEIGHT :: nat where "HEIGHT = 240"
definition RAW_WIDTH :: nat where "RAW_WIDTH = 342"
definition RAW_HEIGHT :: nat where "RAW_HEIGHT = 260"

definition START_GET_IMAGE_TRANSFER :: nat where "START_GET_IMAGE_TRANSFER = 83"
definition SET_OPERATION_MODE :: nat where "SET_OPERATION_MODE = 60"
definition SET_IMAGE_PROCESSING_MODE :: nat where "SET_IMAGE_PROCESSING_MODE = 62"
definition SET_FIRMWARE_INFO_FEATURES :: nat where "SET_FIRMWARE_INFO_FEATURES = 85"
definition SET_FACTORY_SETTINGS_FEATURES :: nat where "SET_FACTORY_SETTINGS_FEATURES = 86"

subsection \<open>The USB device\<close>

text \<open>
  The device handle of pyusb is outside the program; it is modelled as a scripted
  transport.  \<open>ctrl_reply d n req data\<close> is the outcome of the control transfer
  number \<open>n\<close> (counted from 0) with request code \<open>req\<close> and payload \<open>data\<close>: the number
  of bytes the device acknowledges, or an error.  \<open>sent d\<close> logs the control writes
  in the order they were issued.  \<open>bulk_in d\<close> lists the packets that the successive
  bulk reads will deliver; a read on an empty list times out.
\<close>

record device =
  ctrl_reply :: "nat \<Rightarrow> nat \<Rightarrow> byte list \<Rightarrow> error + nat"
  sent :: "(nat \<times> byte list) list"
  bulk_in :: "byte list list"

definition ctrl_transfer :: "device \<Rightarrow> nat \<Rightarrow> byte list \<Rightarrow> error + (nat \<times> device)" where
  "ctrl_transfer d bRequest data =
     (case ctrl_reply d (length (sent d)) bRequest data of
        Inl e \<Rightarrow> Inl e
      | Inr n \<Rightarrow> Inr (n, d\<lparr>sent := sent d @ [(bRequest, data)]\<rparr>))"

text \<open>
  \<^verbatim>\<open>dev.read(0x81, size, 1000)\<close>: one bulk transfer.  It returns the next packet,
  which may be shorter than the requested size; a packet longer than the buffer is an overflow
  error of the USB layer, and no packet within the timeout is a timeout error.
\<close>

definition dev_read :: "device \<Rightarrow> nat \<Rightarrow> error + (byte list \<times> device)" where
  "dev_read d sz =
     (case bulk_in d of
        [] \<Rightarrow> Inl USBError
      | p # ps \<Rightarrow> if sz < length p then Inl USBError else Inr (p, d\<lparr>bulk_in := ps\<rparr>))"

text \<open>\<^verbatim>\<open>send_msg\<close>: a control write, asserted to be acknowledged in full.\<close>

definition send_msg :: "device \<Rightarrow> nat \<Rightarrow> byte list \<Rightarrow> error + device" where
  "send_msg d bRequest data_or_wLength =
     (case ctrl_transfer d bRequest data_or_wLength of
        Inl e \<Rightarrow> Inl e
      | Inr (n, d') \<Rightarrow> if n = length data_or_wLength then Inr d' else Inl AssertionError)"

subsection \<open>Frames\<close>

text \<open>
  \<^verbatim>\<open>np.frombuffer(ret, dtype=np.uint16)\<close> reads the bytes two by two in the byte
  order of the host (little endian: low byte first) and fails on a buffer of odd
  length; \<^verbatim>\<open>reshape(h, w)\<close> cuts a flat array of exactly \<open>h * w\<close> samples into \<open>h\<close>
  rows of \<open>w\<close>.
\<close>

fun pairs_u16 :: "byte list \<Rightarrow> sample list" where
  "pairs_u16 (lo # hi # bs) = (ucast lo OR push_bit 8 (ucast hi)) # pairs_u16 bs"
| "pairs_u16 _ = []"

definition frombuffer_u16 :: "byte list \<Rightarrow> error + sample list" where
  "frombuffer_u16 bs = (if even (length bs) then Inr (pairs_u16 bs) else Inl ValueError)"

fun rows_of :: "nat \<Rightarrow> nat \<Rightarrow> 'a list \<Rightarrow> 'a list list" where
  "rows_of 0 w xs = []"
| "rows_of (Suc h) w xs = take w xs # rows_of h w (drop w xs)"

definition reshape :: "nat \<Rightarrow> nat \<Rightarrow> 'a list \<Rightarrow> error + 'a list list" where
  "reshape h w xs = (if length xs = h * w then Inr (rows_of h w xs) else Inl ValueError)"

subsection \<open>\<^verbatim>\<open>grab\<close>: the frame assembler\<close>

definition toread :: int where
  "toread = 2 * int RAW_WIDTH * int RAW_HEIGHT"

text \<open>
  The \<^verbatim>\<open>while remaining > 512\<close> loop.  \<open>remaining\<close> is recomputed from the buffer
  after every read, so the buffer is the only loop variable.  Each round takes one
  packet off the script, which is what the recursion descends on.
\<close>

function read_loop :: "device \<Rightarrow> byte list \<Rightarrow> error + (byte list \<times> device)" where
  "read_loop d ret =
     (if toread - int (length ret) > 512 then
        (case dev_read d 13680 of
           Inl e \<Rightarrow> Inl e
         | Inr (chunk, d') \<Rightarrow> read_loop d' (ret @ chunk))
      else Inr (ret, d))"
  by pat_completeness auto
termination
  by (relation "measure (\<lambda>(d, ret). length (bulk_in d))")
     (auto simp: dev_read_def split: list.splits if_splits)

declare read_loop.simps [simp del]

text \<open>Lines 139 to 148 of \<^verbatim>\<open>grab\<close>: the request, the first read and the loop.\<close>

definition grab_read :: "device \<Rightarrow> error + (byte list \<times> device)" where
  "grab_read d =
     (case send_msg d START_GET_IMAGE_TRANSFER [0x58, 0x5b, 0x01, 0x00] of
        Inl e \<Rightarrow> Inl e
      | Inr d1 \<Rightarrow>
         (case dev_read d1 13680 of
            Inl e \<Rightarrow> Inl e
          | Inr (ret, d2) \<Rightarrow> read_loop d2 ret))"

text \<open>
  Lines 149 to 154: the status byte \<^verbatim>\<open>ret[4]\<close> (an \<^verbatim>\<open>IndexError\<close> on a buffer of
  fewer than five bytes), then the frame when the length is exactly the expected one
  and \<^verbatim>\<open>None\<close> otherwise.
\<close>

definition grab :: "device \<Rightarrow> error + ((byte \<times> grid option) \<times> device)" where
  "grab d =
     (case grab_read d of
        Inl e \<Rightarrow> Inl e
      | Inr (ret, d') \<Rightarrow>
         if length ret \<le> 4 then Inl IndexError
         else
           let status = ret ! 4 in
           if length ret = RAW_HEIGHT * RAW_WIDTH * 2 then
             (case frombuffer_u16 ret of
                Inl e \<Rightarrow> Inl e
              | Inr flat \<Rightarrow>
                 (case reshape RAW_HEIGHT RAW_WIDTH flat of
                    Inl e \<Rightarrow> Inl e
                  | Inr img \<Rightarrow> Inr ((status, Some img), d')))
           else Inr ((status, None), d'))"

subsection \<open>\<^verbatim>\<open>init\<close>: the protocol sequencer\<close>

text \<open>
  \<^verbatim>\<open>init\<close> is a straight line of \<^verbatim>\<open>send_msg\<close> calls, the two nested \<^verbatim>\<open>for\<close>
  loops included; the first call that raises ends it.  \<open>init_sequence\<close> lists the
  calls in source order, \<^verbatim>\<open>range(0,256,32)\<close> being \<open>0, 32, \<dots>, 224\<close>.
\<close>

fun send_all :: "(nat \<times> byte list) list \<Rightarrow> device \<Rightarrow> error + device" where
  "send_all [] d = Inr d"
| "send_all ((bRequest, data) # ms) d =
     (case send_msg d bRequest data of
        Inl e \<Rightarrow> Inl e
      | Inr d' \<Rightarrow> send_all ms d')"

definition init_sequence :: "(nat \<times> byte list) list" where
  "init_sequence =
     [(SET_OPERATION_MODE, [0x00, 0x00]),
      (SET_FACTORY_SETTINGS_FEATURES, [0x06, 0x00, 0x08, 0x00, 0x00, 0x00]),
      (SET_FIRMWARE_INFO_FEATURES, [0x17, 0x00]),
      (SET_FACTORY_SETTINGS_FEATURES, [0x01, 0x00, 0x00, 0x06, 0x00, 0x00])] @
     concat (map (\<lambda>i. map (\<lambda>j. (SET_FACTORY_SETTINGS_FEATURES,
                                   [0x20, 0x00, of_nat j, of_nat i, 0x00, 0x00]))
                          (map (\<lambda>k. 32 * k) [0..<8]))
                 [0..<10]) @
     [(SET_FIRMWARE_INFO_FEATURES, [0x15, 0x00]),
      (SET_IMAGE_PROCESSING_MODE, [0x08, 0x00]),
      (SET_OPERATION_MODE, [0x01, 0x00])]"

definition init :: "device \<Rightarrow> error + device" where
  "init d = send_all init_sequence d"

subsection \<open>\<^verbatim>\<open>crop\<close> and the numpy operations\<close>

text \<open>
  A slice \<^verbatim>\<open>xs[lo:hi]\<close> with bounds that are not negative: numpy and Python clip
  both bounds to the length, as \<open>take\<close> and \<open>drop\<close> do.
\<close>

definition slice :: "nat \<Rightarrow> nat \<Rightarrow> 'a list \<Rightarrow> 'a list" where
  "slice lo hi xs = take (hi - lo) (drop lo xs)"

text \<open>\<^verbatim>\<open>raw_img[4:4+HEIGHT,1:1+WIDTH]\<close>\<close>

definition crop :: "grid \<Rightarrow> grid" where
  "crop raw_img = map (slice 1 (1 + WIDTH)) (slice 4 (4 + HEIGHT) raw_img)"

text \<open>
  Subtraction keeps the type \<^verbatim>\<open>uint16\<close> of the array, for a Python integer that
  fits (\<^verbatim>\<open>crop(img)-1600\<close>) and for another \<^verbatim>\<open>uint16\<close> array
  (\<^verbatim>\<open>crop(img)-calib\<close>) alike, and wraps modulo \<open>2 ^ 16\<close>.  The two arrays that the
  program subtracts are both crops of raw frames and have the same shape.
\<close>

definition sub_scalar :: "grid \<Rightarrow> sample \<Rightarrow> grid" where
  "sub_scalar img c = map (map (\<lambda>x. x - c)) img"

definition sub_grid :: "grid \<Rightarrow> grid \<Rightarrow> grid" where
  "sub_grid a b = map2 (map2 (-)) a b"

text \<open>
  \<^verbatim>\<open>np.where(img<100)\<close> zipped: the coordinates of the samples below 100, row by
  row and from left to right.
\<close>

definition where_lt :: "grid \<Rightarrow> sample \<Rightarrow> (nat \<times> nat) list" where
  "where_lt img t =
     concat (map (\<lambda>i. map (\<lambda>j. (i, j)) (filter (\<lambda>j. img ! i ! j < t) [0..<length (img ! i)]))
                 [0..<length img])"

text \<open>
  \<^verbatim>\<open>get_dead_pix_list(data)\<close>.  \<open>data\<close> is what \<^verbatim>\<open>grab\<close> returned: an array, whose
  buffer \<^verbatim>\<open>np.frombuffer\<close> reads row after row, or \<^verbatim>\<open>None\<close>, which is not a
  buffer.
\<close>

definition get_dead_pix_list :: "grid option \<Rightarrow> error + (nat \<times> nat) list" where
  "get_dead_pix_list data =
     (case data of
        None \<Rightarrow> Inl TypeError
      | Some arr \<Rightarrow>
         (case reshape RAW_HEIGHT RAW_WIDTH (concat arr) of
            Inl e \<Rightarrow> Inl e
          | Inr raw \<Rightarrow> Inr (where_lt (crop raw) 100)))"

subsection \<open>\<^verbatim>\<open>correct_dead_pix\<close>\<close>

text \<open>
  \<^verbatim>\<open>np.median\<close> of a \<^verbatim>\<open>uint16\<close> array is a float: the middle sample of the sorted
  values for an odd count, the mean of the two middle samples for an even count.
  Both are exact in double precision (a half of an integer below \<open>2 ^ 17\<close>), and
  storing the float into the \<^verbatim>\<open>uint16\<close> image truncates it.  \<open>median\<close> is the stored
  value.
\<close>

definition median :: "sample list \<Rightarrow> sample" where
  "median xs =
     (let s = sort xs; n = length s; index = n div 2 in
      if even n then of_nat ((unat (s ! (index - 1)) + unat (s ! index)) div 2)
      else s ! index)"

text \<open>\<^verbatim>\<open>img[max(0,i-1):i+2,max(0,j-1):j+2]\<close>, flattened as \<^verbatim>\<open>np.median\<close> does.\<close>

definition window :: "grid \<Rightarrow> nat \<Rightarrow> nat \<Rightarrow> sample list" where
  "window img i j =
     concat (map (slice (nat (max 0 (int j - 1))) (j + 2))
                 (slice (nat (max 0 (int i - 1))) (i + 2) img))"

text \<open>
  The neighbourhood \<open>[row-1, row+2) \<times> [col-1, col+2)\<close> of a coordinate, intersected
  with the bounds of an image of \<open>h\<close> rows and \<open>w\<close> columns, row by row.  On natural
  numbers \<open>i - 1\<close> is 0 at \<open>i = 0\<close>, which is the intersection with the lower bound.
\<close>

definition neighbourhood :: "nat \<Rightarrow> nat \<Rightarrow> nat \<Rightarrow> nat \<Rightarrow> (nat \<times> nat) list" where
  "neighbourhood h w i j =
     concat (map (\<lambda>r. map (\<lambda>c. (r, c)) [j - 1..<min (j + 2) w]) [i - 1..<min (i + 2) h])"

text \<open>
  One round of the \<^verbatim>\<open>for\<close> loop: \<^verbatim>\<open>img[i,j] = np.median(...)\<close>.  The coordinates
  come from \<^verbatim>\<open>np.where\<close> and are never negative; a coordinate beyond the image is
  an \<^verbatim>\<open>IndexError\<close> of the assignment.
\<close>

definition fix_pixel :: "grid \<Rightarrow> nat \<times> nat \<Rightarrow> error + grid" where
  "fix_pixel img p =
     (case p of (i, j) \<Rightarrow>
        if i < length img \<and> j < length (img ! i)
        then Inr (img[i := (img ! i)[j := median (window img i j)]])
        else Inl IndexError)"

fun correct_dead_pix :: "(nat \<times> nat) list \<Rightarrow> grid \<Rightarrow> error + grid" where
  "correct_dead_pix [] img = Inr img"
| "correct_dead_pix (p # ps) img =
     (case fix_pixel img p of
        Inl e \<Rightarrow> Inl e
      | Inr img' \<Rightarrow> correct_dead_pix ps img')"



subsection \<open>The session: \<^verbatim>\<open>__init__\<close> and \<^verbatim>\<open>get_image\<close>\<close>

text \<open>
  The attributes of a \<^verbatim>\<open>SeekPro\<close> object.  \<open>dead_pixels\<close> is \<open>None\<close> as long as the
  attribute has not been assigned; \<open>printed\<close> collects what \<^verbatim>\<open>print\<close> wrote.
\<close>

record session =
  dev :: device
  calib :: "grid option"
  dead_pixels :: "(nat \<times> nat) list option"
  printed :: "string list"

text \<open>The body of \<^verbatim>\<open>for i in range(5)\<close>, over the values \<open>i\<close> still to come.\<close>

fun discovery_loop :: "nat list \<Rightarrow> session \<Rightarrow> error + session" where
  "discovery_loop [] s = Inr s"
| "discovery_loop (i # is) s =
     (if i = 4 then
        Inr (s\<lparr>dead_pixels := Some [],
               printed := printed s @ [''Could not get the dead pixels frame!'']\<rparr>)
      else
        (case init (dev s) of
           Inl e \<Rightarrow> Inl e
         | Inr d1 \<Rightarrow>
            (case grab d1 of
               Inl e \<Rightarrow> Inl e
             | Inr ((status, ret), d2) \<Rightarrow>
                if status = 4 then
                  (case get_dead_pix_list ret of
                     Inl e \<Rightarrow> Inl e
                   | Inr dp \<Rightarrow> Inr (s\<lparr>dev := d2, dead_pixels := Some dp\<rparr>))
                else discovery_loop is (s\<lparr>dev := d2\<rparr>))))"

text \<open>
  \<^verbatim>\<open>__init__\<close>.  \<open>found\<close> is the result of \<^verbatim>\<open>usb.core.find\<close>; selecting the USB
  configuration exchanges no message of the protocol and is left out.
\<close>

definition SeekPro_init :: "device option \<Rightarrow> error + session" where
  "SeekPro_init found =
     (case found of
        None \<Rightarrow> Inl IOError
      | Some d \<Rightarrow>
         discovery_loop [0..<5]
           \<lparr>dev = d, calib = None, dead_pixels = None, printed = []\<rparr>)"

text \<open>
  The calibration reference after a session has seen the frames \<open>fs\<close>, starting from
  the reference \<open>c\<close>: \<open>CroppedImage - 1600\<close> of the most recent calibration frame.
\<close>

fun calib_after :: "grid option \<Rightarrow> (byte \<times> grid option) list \<Rightarrow> grid option" where
  "calib_after c [] = c"
| "calib_after c ((st, img) # fs) =
     calib_after
       (if st = 1 then (case img of None \<Rightarrow> c | Some raw \<Rightarrow> Some (sub_scalar (crop raw) 1600))
        else c) fs"

text \<open>
  A synthetic raw frame for tests of \<^verbatim>\<open>crop\<close>: the 260 by 342 frame that has the
  samples of \<open>pattern\<close> at the rows \<open>[4, 4 + HEIGHT)\<close> and the columns
  \<open>[1, 1 + WIDTH)\<close> and those of \<open>border\<close> elsewhere; and the sum of two grids of
  the same shape in \<^verbatim>\<open>uint16\<close> arithmetic.
\<close>

definition inverse_crop :: "grid \<Rightarrow> grid \<Rightarrow> grid" where
  "inverse_crop border pattern =
     map (\<lambda>i. map (\<lambda>j. if 4 \<le> i \<and> i < 4 + HEIGHT \<and> 1 \<le> j \<and> j < 1 + WIDTH
                         then pattern ! (i - 4) ! (j - 1) else border ! i ! j)
                   [0..<RAW_WIDTH])
         [0..<RAW_HEIGHT]"

definition add_grid :: "grid \<Rightarrow> grid \<Rightarrow> grid" where
  "add_grid a b = map2 (map2 (+)) a b"

text \<open>
  One attempt of the discovery is \<^verbatim>\<open>init\<close> followed by \<^verbatim>\<open>grab\<close>; \<open>attempts n d\<close> are
  the frames that the first \<open>n\<close> attempts on the device \<open>d\<close> return, up to the first
  attempt that raises.
\<close>

definition attempt :: "device \<Rightarrow> error + ((byte \<times> grid option) \<times> device)" where
  "attempt d = (case init d of Inl e \<Rightarrow> Inl e | Inr d1 \<Rightarrow> grab d1)"

fun attempts :: "nat \<Rightarrow> device \<Rightarrow> (byte \<times> grid option) list" where
  "attempts 0 d = []"
| "attempts (Suc n) d = (case attempt d of Inl e \<Rightarrow> [] | Inr (r, d') \<Rightarrow> r # attempts n d')"

subsection \<open>Simulated devices\<close>

text \<open>
  A device for tests: it acknowledges every control write in full and delivers each
  of the given buffers in packets of 13680 bytes, the last packet of a buffer with
  what is left.  \<open>buffer_of st v n\<close> is a buffer of \<open>n\<close> bytes with the status byte
  \<open>st\<close> at index 4 and the byte \<open>v\<close> after it.  \<open>replay log bufs\<close> is such a
  device with the control writes \<open>log\<close> already sent to it; \<open>mock\<close> starts with none.
\<close>

fun packets :: "byte list \<Rightarrow> byte list list" where
  "packets bs = (if bs = [] then [] else take 13680 bs # packets (drop 13680 bs))"

declare packets.simps [simp del]

definition buffer_of :: "byte \<Rightarrow> byte \<Rightarrow> nat \<Rightarrow> byte list" where
  "buffer_of st v n = [0, 0, 0, 0, st] @ replicate (n - 5) v"

definition replay :: "(nat \<times> byte list) list \<Rightarrow> byte list list \<Rightarrow> device" where
  "replay log bufs =
     \<lparr>ctrl_reply = (\<lambda>n req data. Inr (length data)), sent = log,
      bulk_in = concat (map packets bufs)\<rparr>"

definition mock :: "byte list list \<Rightarrow> device" where
  "mock bufs =
     \<lparr>ctrl_reply = (\<lambda>n req data. Inr (length data)), sent = [],
      bulk_in = concat (map packets bufs)\<rparr>"

lemma dev_read_shrinks:
  "dev_read d sz = Inr (p, d') \<Longrightarrow> length (bulk_in d') < length (bulk_in d)"
  by (auto simp: dev_read_def split: list.splits if_splits)

lemma read_loop_shrinks:
  "read_loop d ret = Inr (ret', d') \<Longrightarrow> length (bulk_in d') \<le> length (bulk_in d)"
proof (induction d ret rule: read_loop.induct)
  case (1 d ret)
  show ?case
  proof (cases "toread - int (length ret) > 512")
    case True
    with "1.prems" obtain chunk d1 where
      r: "dev_read d 13680 = Inr (chunk, d1)" and
      l: "read_loop d1 (ret @ chunk) = Inr (ret', d')"
      by (subst (asm) read_loop.simps) (auto split: sum.splits)
    from "1.IH" [OF True r refl l] dev_read_shrinks [OF r] show ?thesis by simp
  next
    case False
    with "1.prems" show ?thesis
      by (subst (asm) read_loop.simps) simp
  qed
qed

lemma send_msg_bulk_in: "send_msg d req data = Inr d' \<Longrightarrow> bulk_in d' = bulk_in d"
  by (auto simp: send_msg_def ctrl_transfer_def split: sum.splits if_splits)

lemma grab_read_shrinks:
  "grab_read d = Inr (ret, d') \<Longrightarrow> length (bulk_in d') < length (bulk_in d)"
  by (auto simp: grab_read_def split: sum.splits
      dest!: send_msg_bulk_in dev_read_shrinks read_loop_shrinks)

lemma grab_shrinks:
  "grab d = Inr (r, d') \<Longrightarrow> length (bulk_in d') < length (bulk_in d)"
  by (auto simp: grab_def Let_def split: sum.splits if_splits dest: grab_read_shrinks)

text \<open>
  \<^verbatim>\<open>get_image\<close>: the \<^verbatim>\<open>while True\<close> loop.  Every round grabs a frame, and every
  grab takes at least one packet off the script of the device, so the recursion is
  well founded: on a script that ends, the loop ends with the image or with the
  error of the read that timed out.
\<close>

function get_image :: "session \<Rightarrow> error + (grid \<times> session)" where
  "get_image s =
     (case grab (dev s) of
        Inl e \<Rightarrow> Inl e
      | Inr ((status, img), d') \<Rightarrow>
         if status = 1 then
           (case img of
              None \<Rightarrow> Inl TypeError
            | Some raw \<Rightarrow> get_image (s\<lparr>dev := d', calib := Some (sub_scalar (crop raw) 1600)\<rparr>))
         else if status = 3 then
           (case calib s of
              None \<Rightarrow> get_image (s\<lparr>dev := d'\<rparr>)
            | Some c \<Rightarrow>
               (case img of
                  None \<Rightarrow> Inl TypeError
                | Some raw \<Rightarrow>
                   (case dead_pixels s of
                      None \<Rightarrow> Inl AttributeError
                    | Some dp \<Rightarrow>
                       (case correct_dead_pix dp (sub_grid (crop raw) c) of
                          Inl e \<Rightarrow> Inl e
                        | Inr out \<Rightarrow> Inr (out, s\<lparr>dev := d'\<rparr>)))))
         else get_image (s\<lparr>dev := d'\<rparr>))"
  by pat_completeness auto
termination
  by (relation "measure (\<lambda>s. length (bulk_in (dev s)))") (auto dest: grab_shrinks)

declare get_image.simps [simp del]

text \<open>
  The sequence of frames that successive calls of \<^verbatim>\<open>grab\<close> return on a device, up
  to the first call that raises: what a session observes.
\<close>

function grabs :: "device \<Rightarrow> (byte \<times> grid option) list" where
  "grabs d = (case grab d of Inl e \<Rightarrow> [] | Inr (r, d') \<Rightarrow> r # grabs d')"
  by pat_completeness auto
termination
  by (relation "measure (\<lambda>d. length (bulk_in d))") (auto dest: grab_shrinks)

declare grabs.simps [simp del]

section \<open>The read loop\<close>

lemma toread_eq: "toread = 177840"
  by (simp add: toread_def RAW_WIDTH_def RAW_HEIGHT_def)

lemma read_loop_stop:
  "\<not> toread - int (length ret) > 512 \<Longrightarrow> read_loop d ret = Inr (ret, d)"
  by (subst read_loop.simps) simp

lemma read_loop_step:
  "toread - int (length ret) > 512 \<Longrightarrow> dev_read d 13680 = Inr (chunk, d') \<Longrightarrow>
   read_loop d ret = read_loop d' (ret @ chunk)"
  by (subst read_loop.simps) simp

lemma read_loop_fail:
  "toread - int (length ret) > 512 \<Longrightarrow> dev_read d 13680 = Inl e \<Longrightarrow>
   read_loop d ret = Inl e"
  by (subst read_loop.simps) simp

lemma read_loop_length:
  "read_loop d ret = Inr (ret', d') \<Longrightarrow> 177328 \<le> length ret'"
proof (induction d ret rule: read_loop.induct)
  case (1 d ret)
  show ?case
  proof (cases "toread - int (length ret) > 512")
    case True
    with "1.prems" obtain chunk d1 where
      r: "dev_read d 13680 = Inr (chunk, d1)" and
      l: "read_loop d1 (ret @ chunk) = Inr (ret', d')"
      by (subst (asm) read_loop.simps) (auto split: sum.splits)
    from "1.IH" [OF True r refl l] show ?thesis .
  next
    case False
    with "1.prems" have "ret' = ret"
      by (simp add: read_loop_stop)
    with False show ?thesis by (simp add: toread_eq)
  qed
qed

lemma grab_read_length:
  "grab_read d = Inr (ret, d') \<Longrightarrow> 177328 \<le> length ret"
  by (auto simp: grab_read_def split: sum.splits dest: read_loop_length)

section \<open>Simulated devices deliver their buffers\<close>

lemma packets_Nil [simp]: "packets [] = []"
  by (simp add: packets.simps)

lemma packets_Cons:
  "bs \<noteq> [] \<Longrightarrow> packets bs = take 13680 bs # packets (drop 13680 bs)"
  by (subst packets.simps) simp

lemma read_loop_packets:
  "bulk_in d = packets bs @ rest \<Longrightarrow> length ret + length bs \<le> 177840 \<Longrightarrow>
   177328 \<le> length ret + length bs \<Longrightarrow>
   length bs mod 13680 = 0 \<or> 512 < length bs mod 13680 \<Longrightarrow>
   read_loop d ret = Inr (ret @ bs, d\<lparr>bulk_in := rest\<rparr>)"
proof (induction bs arbitrary: d ret rule: packets.induct)
  case (1 bs)
  show ?case
  proof (cases "bs = []")
    case True
    with "1.prems" show ?thesis
      by (simp add: read_loop_stop toread_eq)
  next
    case False
    then have pos: "0 < length bs" by simp
    have big: "512 < length bs"
    proof -
      from "1.prems"(4) show ?thesis
      proof
        assume z: "length bs mod 13680 = 0"
        have "\<not> length bs < 13680"
        proof
          assume "length bs < 13680"
          then have "length bs mod 13680 = length bs" by (rule mod_less)
          with z pos show False by simp
        qed
        then show ?thesis by simp
      next
        assume "512 < length bs mod 13680"
        moreover have "length bs mod 13680 \<le> length bs" by simp
        ultimately show ?thesis by linarith
      qed
    qed
    let ?d' = "d\<lparr>bulk_in := packets (drop 13680 bs) @ rest\<rparr>"
    have rd: "dev_read d 13680 = Inr (take 13680 bs, ?d')"
      using "1.prems"(1) False by (simp add: dev_read_def packets_Cons)
    have go: "toread - int (length ret) > 512"
      using big "1.prems"(2) by (simp add: toread_eq)
    have m: "length (drop 13680 bs) mod 13680 = 0 \<or> 512 < length (drop 13680 bs) mod 13680"
    proof (cases "13680 \<le> length bs")
      case True
      then have "(length bs - 13680) mod 13680 = length bs mod 13680"
        by (simp add: le_mod_geq)
      with "1.prems"(4) show ?thesis by simp
    next
      case False
      then show ?thesis by simp
    qed
    have len: "length (ret @ take 13680 bs) + length (drop 13680 bs) = length ret + length bs"
      by simp
    have "read_loop ?d' (ret @ take 13680 bs)
          = Inr ((ret @ take 13680 bs) @ drop 13680 bs, ?d'\<lparr>bulk_in := rest\<rparr>)"
      by (rule "1.IH" [OF False _ _ _ m]) (use "1.prems" len in simp_all)
    then show ?thesis
      by (simp add: read_loop_step [OF go rd])
  qed
qed


section \<open>Frames and the result of \<^verbatim>\<open>grab\<close>\<close>

lemma length_pairs_u16: "length (pairs_u16 bs) = length bs div 2"
  by (induction bs rule: pairs_u16.induct) simp_all

lemma length_rows_of: "length (rows_of h w xs) = h"
  by (induction h arbitrary: xs) simp_all

lemma rows_of_nth: "i < h \<Longrightarrow> rows_of h w xs ! i = take w (drop (i * w) xs)"
proof (induction h arbitrary: xs i)
  case 0
  then show ?case by simp
next
  case (Suc h)
  show ?case
  proof (cases i)
    case 0
    then show ?thesis by simp
  next
    case (Suc k)
    with Suc.prems have "k < h" by simp
    from Suc.IH [OF this, of "drop w xs"] Suc show ?thesis
      by (simp add: add.commute)
  qed
qed

lemma rows_of_row_length:
  "length xs = h * w \<Longrightarrow> i < h \<Longrightarrow> length (rows_of h w xs ! i) = w"
proof -
  assume l: "length xs = h * w" and i: "i < h"
  then have "Suc i \<le> h" by simp
  then have "Suc i * w \<le> h * w" by (rule mult_le_mono1)
  then have "w \<le> h * w - i * w" by simp
  with l i show ?thesis by (simp add: rows_of_nth)
qed

lemma raw_size: "RAW_HEIGHT * RAW_WIDTH * 2 = 177840"
  by (simp add: RAW_HEIGHT_def RAW_WIDTH_def)

lemma grab_eq:
  "grab d =
     (case grab_read d of
        Inl e \<Rightarrow> Inl e
      | Inr (ret, d') \<Rightarrow>
          Inr ((ret ! 4,
                if length ret = 177840
                then Some (rows_of RAW_HEIGHT RAW_WIDTH (pairs_u16 ret)) else None), d'))"
proof (cases "grab_read d")
  case (Inl e)
  then show ?thesis by (simp add: grab_def)
next
  case (Inr r)
  obtain ret d' where r: "r = (ret, d')" by (cases r)
  from Inr r have "177328 \<le> length ret" by (simp add: grab_read_length)
  then have "\<not> length ret \<le> 4" by simp
  moreover have "length ret = 177840 \<Longrightarrow>
      reshape RAW_HEIGHT RAW_WIDTH (pairs_u16 ret) = Inr (rows_of RAW_HEIGHT RAW_WIDTH (pairs_u16 ret))"
    by (simp add: reshape_def length_pairs_u16 RAW_HEIGHT_def RAW_WIDTH_def)
  ultimately show ?thesis
    using Inr r by (simp add: grab_def raw_size frombuffer_u16_def)
qed

lemma grab_read_packets:
  assumes ack: "ctrl_reply d (length (sent d)) START_GET_IMAGE_TRANSFER [0x58, 0x5b, 0x01, 0x00] = Inr 4"
    and b: "bulk_in d = packets bs @ rest"
    and lo: "177328 \<le> length bs" and hi: "length bs \<le> 177840"
    and m: "length bs mod 13680 = 0 \<or> 512 < length bs mod 13680"
  shows "grab_read d =
           Inr (bs, d\<lparr>sent := sent d @ [(START_GET_IMAGE_TRANSFER, [0x58, 0x5b, 0x01, 0x00])],
                       bulk_in := rest\<rparr>)"
proof -
  let ?d1 = "d\<lparr>sent := sent d @ [(START_GET_IMAGE_TRANSFER, [0x58, 0x5b, 0x01, 0x00])]\<rparr>"
  let ?d2 = "?d1\<lparr>bulk_in := packets (drop 13680 bs) @ rest\<rparr>"
  from lo have ne: "bs \<noteq> []" by auto
  have s: "send_msg d START_GET_IMAGE_TRANSFER [0x58, 0x5b, 0x01, 0x00] = Inr ?d1"
    using ack by (simp add: send_msg_def ctrl_transfer_def)
  have r: "dev_read ?d1 13680 = Inr (take 13680 bs, ?d2)"
    using b ne by (simp add: dev_read_def packets_Cons)
  have m': "length (drop 13680 bs) mod 13680 = 0 \<or> 512 < length (drop 13680 bs) mod 13680"
  proof -
    from lo have "13680 \<le> length bs" by simp
    then have "(length bs - 13680) mod 13680 = length bs mod 13680"
      by (simp add: le_mod_geq)
    with m show ?thesis by simp
  qed
  have "read_loop ?d2 (take 13680 bs)
          = Inr (take 13680 bs @ drop 13680 bs, ?d2\<lparr>bulk_in := rest\<rparr>)"
    by (rule read_loop_packets [OF _ _ _ m']) (use lo hi in simp_all)
  with s r show ?thesis by (simp add: grab_read_def)
qed


lemma read_loop_starved:
  "\<forall>p\<in>set (bulk_in d). length p \<le> 13680 \<Longrightarrow>
   length ret + sum_list (map length (bulk_in d)) < 177328 \<Longrightarrow>
   read_loop d ret = Inl USBError"
proof (induction ps \<equiv> "bulk_in d" arbitrary: d ret)
  case Nil
  then have "toread - int (length ret) > 512" by (simp add: toread_eq)
  moreover from Nil have "dev_read d 13680 = Inl USBError"
    by (simp add: dev_read_def split: list.splits)
  ultimately show ?case by (rule read_loop_fail)
next
  case (Cons p ps)
  from Cons.hyps(2) [symmetric] Cons.prems
  have go: "toread - int (length ret) > 512" by (simp add: toread_eq)
  let ?d' = "d\<lparr>bulk_in := ps\<rparr>"
  have rd: "dev_read d 13680 = Inr (p, ?d')"
    using Cons.hyps(2) [symmetric] Cons.prems(1) by (simp add: dev_read_def)
  have "read_loop ?d' (ret @ p) = Inl USBError"
    by (rule Cons.hyps(1)) (use Cons.hyps(2) [symmetric] Cons.prems in simp_all)
  then show ?case by (simp add: read_loop_step [OF go rd])
qed

lemma read_loop_enough:
  "\<forall>p\<in>set (bulk_in d). length p \<le> 13680 \<Longrightarrow>
   177328 \<le> length ret + sum_list (map length (bulk_in d)) \<Longrightarrow>
   \<exists>ret' d'. read_loop d ret = Inr (ret', d') \<and>
      length ret' \<le> length ret + sum_list (map length (bulk_in d))"
proof (induction ps \<equiv> "bulk_in d" arbitrary: d ret)
  case Nil
  then have "\<not> toread - int (length ret) > 512" by (simp add: toread_eq)
  then have "read_loop d ret = Inr (ret, d)" by (rule read_loop_stop)
  then show ?case by simp
next
  case (Cons p ps)
  show ?case
  proof (cases "toread - int (length ret) > 512")
    case True
    let ?d' = "d\<lparr>bulk_in := ps\<rparr>"
    have rd: "dev_read d 13680 = Inr (p, ?d')"
      using Cons.hyps(2) [symmetric] Cons.prems(1) by (simp add: dev_read_def)
    have "\<exists>ret' d'. read_loop ?d' (ret @ p) = Inr (ret', d') \<and>
        length ret' \<le> length (ret @ p) + sum_list (map length (bulk_in ?d'))"
      by (rule Cons.hyps(1)) (use Cons.hyps(2) [symmetric] Cons.prems in simp_all)
    then show ?thesis
      using Cons.hyps(2) [symmetric] by (simp add: read_loop_step [OF True rd] add.assoc)
  next
    case False
    then have "read_loop d ret = Inr (ret, d)" by (rule read_loop_stop)
    then show ?thesis by simp
  qed
qed

lemma grab_read_starved:
  assumes ack: "ctrl_reply d (length (sent d)) START_GET_IMAGE_TRANSFER [0x58, 0x5b, 0x01, 0x00] = Inr 4"
    and sz: "\<forall>p\<in>set (bulk_in d). length p \<le> 13680"
    and t: "sum_list (map length (bulk_in d)) < 177328"
  shows "grab_read d = Inl USBError"
proof -
  let ?d1 = "d\<lparr>sent := sent d @ [(START_GET_IMAGE_TRANSFER, [0x58, 0x5b, 0x01, 0x00])]\<rparr>"
  have s: "send_msg d START_GET_IMAGE_TRANSFER [0x58, 0x5b, 0x01, 0x00] = Inr ?d1"
    using ack by (simp add: send_msg_def ctrl_transfer_def)
  show ?thesis
  proof (cases "bulk_in d")
    case Nil
    then have "dev_read ?d1 13680 = Inl USBError" by (simp add: dev_read_def)
    with s show ?thesis by (simp add: grab_read_def)
  next
    case (Cons p ps)
    let ?d2 = "?d1\<lparr>bulk_in := ps\<rparr>"
    have r: "dev_read ?d1 13680 = Inr (p, ?d2)"
      using Cons sz by (simp add: dev_read_def)
    have "read_loop ?d2 p = Inl USBError"
      by (rule read_loop_starved) (use Cons sz t in simp_all)
    with s r show ?thesis by (simp add: grab_read_def)
  qed
qed

lemma grab_read_enough:
  assumes ack: "ctrl_reply d (length (sent d)) START_GET_IMAGE_TRANSFER [0x58, 0x5b, 0x01, 0x00] = Inr 4"
    and sz: "\<forall>p\<in>set (bulk_in d). length p \<le> 13680"
    and t: "177328 \<le> sum_list (map length (bulk_in d))"
  shows "\<exists>ret d'. grab_read d = Inr (ret, d') \<and> length ret \<le> sum_list (map length (bulk_in d))"
proof -
  let ?d1 = "d\<lparr>sent := sent d @ [(START_GET_IMAGE_TRANSFER, [0x58, 0x5b, 0x01, 0x00])]\<rparr>"
  have s: "send_msg d START_GET_IMAGE_TRANSFER [0x58, 0x5b, 0x01, 0x00] = Inr ?d1"
    using ack by (simp add: send_msg_def ctrl_transfer_def)
  from t obtain p ps where c: "bulk_in d = p # ps" by (cases "bulk_in d") auto
  let ?d2 = "?d1\<lparr>bulk_in := ps\<rparr>"
  have r: "dev_read ?d1 13680 = Inr (p, ?d2)"
    using c sz by (simp add: dev_read_def)
  have "\<exists>ret' d'. read_loop ?d2 p = Inr (ret', d') \<and>
      length ret' \<le> length p + sum_list (map length (bulk_in ?d2))"
    by (rule read_loop_enough) (use c sz t in simp_all)
  with s r c show ?thesis by (simp add: grab_read_def)
qed

lemma concat_packets: "concat (packets bs) = bs"
  by (induction bs rule: packets.induct) (subst packets.simps, simp)

lemma packets_length: "p \<in> set (packets bs) \<Longrightarrow> length p \<le> 13680"
proof (induction bs rule: packets.induct)
  case (1 bs)
  show ?case
  proof (cases "bs = []")
    case True
    with "1.prems" show ?thesis by simp
  next
    case False
    with "1.prems" have "p = take 13680 bs \<or> p \<in> set (packets (drop 13680 bs))"
      by (simp add: packets_Cons)
    with "1.IH" [OF False] show ?thesis by auto
  qed
qed

lemma total_packets: "sum_list (map length (packets bs)) = length bs"
proof -
  have "length (concat (packets bs)) = length bs" by (simp add: concat_packets)
  then show ?thesis by (simp add: length_concat)
qed

lemma length_buffer_of: "5 \<le> n \<Longrightarrow> length (buffer_of st v n) = n"
  by (simp add: buffer_of_def)

lemma buffer_of_status: "buffer_of st v n ! 4 = st"
  by (simp add: buffer_of_def)

lemma mock_simps [simp]:
  "ctrl_reply (mock bufs) n req data = Inr (length data)"
  "sent (mock bufs) = []"
  "bulk_in (mock bufs) = concat (map packets bufs)"
  by (simp_all add: mock_def)

lemma grab_delivers:
  assumes "ctrl_reply d (length (sent d)) START_GET_IMAGE_TRANSFER [0x58, 0x5b, 0x01, 0x00] = Inr 4"
    and "bulk_in d = packets bs @ rest"
    and "177328 \<le> length bs" and "length bs \<le> 177840"
    and "length bs mod 13680 = 0 \<or> 512 < length bs mod 13680"
  shows "grab d =
           Inr ((bs ! 4,
                 if length bs = 177840
                 then Some (rows_of RAW_HEIGHT RAW_WIDTH (pairs_u16 bs)) else None),
                d\<lparr>sent := sent d @ [(START_GET_IMAGE_TRANSFER, [0x58, 0x5b, 0x01, 0x00])],
                  bulk_in := rest\<rparr>)"
  by (simp add: grab_eq grab_read_packets [OF assms])

section \<open>The status byte is always there\<close>

text \<open>
  C9.  Whenever the read loop of \<^verbatim>\<open>grab\<close> exits normally, the accumulated buffer
  holds at least \<open>174960 - 512 = 174448\<close> bytes (indeed at least
  \<open>177840 - 512 = 177328\<close>, the expected total \<open>2 * 342 * 260\<close> being 177840), so index
  4 is in bounds: once the reads have returned a buffer, \<^verbatim>\<open>grab\<close> returns its byte 4
  as the status and raises nothing.
\<close>

theorem status_byte_in_bounds:
  "(read_loop d0 ret0 = Inr (ret, d1) \<longrightarrow>
      174448 \<le> length ret \<and> 177328 \<le> length ret \<and> 4 < length ret) \<and>
   (grab_read d = Inr (buf, d') \<longrightarrow> (\<exists>img. grab d = Inr ((buf ! 4, img), d')))"
proof (intro conjI impI)
  assume "read_loop d0 ret0 = Inr (ret, d1)"
  then have "177328 \<le> length ret" by (rule read_loop_length)
  then show "174448 \<le> length ret" "177328 \<le> length ret" "4 < length ret" by simp_all
next
  assume "grab_read d = Inr (buf, d')"
  then show "\<exists>img. grab d = Inr ((buf ! 4, img), d')" by (simp add: grab_eq)
qed

theorem status_byte_in_bounds_witness:
  "read_loop (mock [drop 13680 (buffer_of 3 0 177840)]) (take 13680 (buffer_of 3 0 177840))
     = Inr (buffer_of 3 0 177840, (mock [drop 13680 (buffer_of 3 0 177840)])\<lparr>bulk_in := []\<rparr>) \<and>
   174448 \<le> length (buffer_of 3 0 177840) \<and> 4 < length (buffer_of 3 0 177840) \<and>
   (\<exists>img. grab (mock [buffer_of 3 0 177840])
      = Inr ((3, img), (mock [buffer_of 3 0 177840])
               \<lparr>sent := [(START_GET_IMAGE_TRANSFER, [0x58, 0x5b, 0x01, 0x00])], bulk_in := []\<rparr>))"
proof -
  let ?buf = "buffer_of 3 0 177840"
  let ?dl = "mock [drop 13680 ?buf]"
  let ?d = "mock [?buf]"
  let ?d' = "?d\<lparr>sent := [(START_GET_IMAGE_TRANSFER, [0x58, 0x5b, 0x01, 0x00])], bulk_in := []\<rparr>"
  have l: "length ?buf = 177840" by (simp add: length_buffer_of)
  have a: "read_loop ?dl (take 13680 ?buf) = Inr (take 13680 ?buf @ drop 13680 ?buf, ?dl\<lparr>bulk_in := []\<rparr>)"
    by (rule read_loop_packets [of _ "drop 13680 (buffer_of 3 0 177840)" "[]"])
       (simp_all add: length_buffer_of)
  have b: "grab_read ?d = Inr (?buf, ?d')"
    using grab_read_packets [of ?d ?buf "[]"] by (simp add: l)
  from a b l status_byte_in_bounds [of ?dl "take 13680 ?buf" ?buf "?dl\<lparr>bulk_in := []\<rparr>" ?d ?buf ?d']
  show ?thesis by (simp add: buffer_of_status)
qed

section \<open>The tolerance of the frame assembler\<close>

lemma grab_tolerated:
  assumes ack: "ctrl_reply d (length (sent d)) START_GET_IMAGE_TRANSFER [0x58, 0x5b, 0x01, 0x00] = Inr 4"
    and sz: "\<forall>p\<in>set (bulk_in d). length p \<le> 13680"
    and lo: "177328 \<le> sum_list (map length (bulk_in d))"
    and hi: "sum_list (map length (bulk_in d)) < 177840"
  shows "\<exists>st d'. grab d = Inr ((st, None), d')"
proof -
  from grab_read_enough [OF ack sz lo] obtain ret d'
    where "grab_read d = Inr (ret, d')" "length ret \<le> sum_list (map length (bulk_in d))"
    by blast
  with hi show ?thesis by (simp add: grab_eq)
qed

lemma grab_frame_shape:
  assumes "length ret = 177840"
  shows "length (rows_of RAW_HEIGHT RAW_WIDTH (pairs_u16 ret)) = 260"
    and "\<forall>row\<in>set (rows_of RAW_HEIGHT RAW_WIDTH (pairs_u16 ret)). length row = 342"
proof -
  show "length (rows_of RAW_HEIGHT RAW_WIDTH (pairs_u16 ret)) = 260"
    by (simp add: length_rows_of RAW_HEIGHT_def)
  have "length (pairs_u16 ret) = RAW_HEIGHT * RAW_WIDTH"
    using assms by (simp add: length_pairs_u16 RAW_HEIGHT_def RAW_WIDTH_def)
  then have "\<And>i. i < RAW_HEIGHT \<Longrightarrow>
      length (rows_of RAW_HEIGHT RAW_WIDTH (pairs_u16 ret) ! i) = RAW_WIDTH"
    by (rule rows_of_row_length)
  then show "\<forall>row\<in>set (rows_of RAW_HEIGHT RAW_WIDTH (pairs_u16 ret)). length row = 342"
    by (auto simp: in_set_conv_nth length_rows_of RAW_WIDTH_def)
qed

section \<open>The contract of \<^verbatim>\<open>grab\<close>\<close>

lemma mock_packets_sizes: "\<forall>p\<in>set (bulk_in (mock [bs])). length p \<le> 13680"
  by (simp add: packets_length)

lemma mock_total: "sum_list (map length (bulk_in (mock [bs]))) = length bs"
  by (simp add: total_packets)

lemma grab_mock_full:
  "grab (mock [buffer_of st v 177840]) =
     Inr ((st, Some (rows_of RAW_HEIGHT RAW_WIDTH (pairs_u16 (buffer_of st v 177840)))),
          (mock [buffer_of st v 177840])
             \<lparr>sent := [(START_GET_IMAGE_TRANSFER, [0x58, 0x5b, 0x01, 0x00])], bulk_in := []\<rparr>)"
  using grab_delivers [of "mock [buffer_of st v 177840]" "buffer_of st v 177840" "[]"]
  by (simp add: length_buffer_of buffer_of_status)

text \<open>
  C1, as the code has it.  The expected total is \<open>2 * 342 * 260 = 177840\<close> bytes.  On
  a device that acknowledges the request and delivers packets of at most 13680
  bytes: when the packets total \<open>177840 - 200\<close> bytes the loop stops within its
  tolerance and \<^verbatim>\<open>grab\<close> returns the status with the frame absent; when they total
  \<open>177840 - 600\<close> bytes the loop asks for one more packet and the timeout of that read
  is raised; and whenever \<^verbatim>\<open>grab\<close> returns, the frame is present exactly when the
  accumulated length is 177840, and is then the buffer as 260 rows of 342 samples.
\<close>

theorem grab_frame_contract:
  assumes ack: "ctrl_reply d (length (sent d)) START_GET_IMAGE_TRANSFER [0x58, 0x5b, 0x01, 0x00] = Inr 4"
    and sz: "\<forall>p\<in>set (bulk_in d). length p \<le> 13680"
  shows "(sum_list (map length (bulk_in d)) = 177840 - 200 \<longrightarrow>
            (\<exists>st d'. grab d = Inr ((st, None), d'))) \<and>
         (sum_list (map length (bulk_in d)) = 177840 - 600 \<longrightarrow> grab d = Inl USBError) \<and>
         (\<forall>st img d'. grab d = Inr ((st, img), d') \<longrightarrow>
            (\<exists>ret. grab_read d = Inr (ret, d') \<and> st = ret ! 4 \<and>
               (img \<noteq> None) = (length ret = 177840) \<and>
               (length ret = 177840 \<longrightarrow>
                  img = Some (rows_of RAW_HEIGHT RAW_WIDTH (pairs_u16 ret)) \<and>
                  length (the img) = 260 \<and> (\<forall>row\<in>set (the img). length row = 342))))"
proof (intro conjI impI allI)
  assume "sum_list (map length (bulk_in d)) = 177840 - 200"
  then show "\<exists>st d'. grab d = Inr ((st, None), d')"
    by (intro grab_tolerated [OF ack sz]) simp_all
next
  assume "sum_list (map length (bulk_in d)) = 177840 - 600"
  then have "grab_read d = Inl USBError"
    by (intro grab_read_starved [OF ack sz]) simp
  then show "grab d = Inl USBError" by (simp add: grab_eq)
next
  fix st img d'
  assume g: "grab d = Inr ((st, img), d')"
  then obtain ret where r: "grab_read d = Inr (ret, d')"
    by (auto simp: grab_eq split: sum.splits)
  with g have st: "st = ret ! 4"
    and img: "img = (if length ret = 177840
                     then Some (rows_of RAW_HEIGHT RAW_WIDTH (pairs_u16 ret)) else None)"
    by (simp_all add: grab_eq)
  from img have "(img \<noteq> None) = (length ret = 177840)" by simp
  moreover have "length ret = 177840 \<longrightarrow>
      img = Some (rows_of RAW_HEIGHT RAW_WIDTH (pairs_u16 ret)) \<and>
      length (the img) = 260 \<and> (\<forall>row\<in>set (the img). length row = 342)"
    using img grab_frame_shape [of ret] by simp
  ultimately show "\<exists>ret. grab_read d = Inr (ret, d') \<and> st = ret ! 4 \<and>
      (img \<noteq> None) = (length ret = 177840) \<and>
      (length ret = 177840 \<longrightarrow>
         img = Some (rows_of RAW_HEIGHT RAW_WIDTH (pairs_u16 ret)) \<and>
         length (the img) = 260 \<and> (\<forall>row\<in>set (the img). length row = 342))"
    using r st by blast
qed

theorem grab_frame_contract_witness:
  "(\<exists>st d'. grab (mock [buffer_of 3 0 177640]) = Inr ((st, None), d')) \<and>
   grab (mock [buffer_of 3 0 177240]) = Inl USBError \<and>
   (\<exists>img d'. grab (mock [buffer_of 3 0 177840]) = Inr ((3, Some img), d') \<and>
      length img = 260 \<and> (\<forall>row\<in>set img. length row = 342))"
proof -
  have a: "\<exists>st d'. grab (mock [buffer_of 3 0 177640]) = Inr ((st, None), d')"
    using grab_frame_contract [of "mock [buffer_of 3 0 177640]"]
    by (simp add: mock_packets_sizes mock_total length_buffer_of del: mock_simps(3))
  have b: "grab (mock [buffer_of 3 0 177240]) = Inl USBError"
    using grab_frame_contract [of "mock [buffer_of 3 0 177240]"]
    by (simp add: mock_packets_sizes mock_total length_buffer_of del: mock_simps(3))
  have c: "\<exists>img d'. grab (mock [buffer_of 3 0 177840]) = Inr ((3, Some img), d') \<and>
      length img = 260 \<and> (\<forall>row\<in>set img. length row = 342)"
    using grab_frame_contract [of "mock [buffer_of 3 0 177840]"] grab_mock_full [of 3 0]
    by (auto simp: mock_packets_sizes simp del: mock_simps(3))
  from a b c show ?thesis by blast
qed

theorem grab_tolerance_counterexample:
  "grab (mock [buffer_of 3 0 (174960 - 200)]) = Inl USBError \<and>
   length (buffer_of 3 0 177840) \<noteq> 174960 \<and>
   (\<exists>img d'. grab (mock [buffer_of 3 0 177840]) = Inr ((3, Some img), d'))"
proof -
  have "grab_read (mock [buffer_of 3 0 (174960 - 200)]) = Inl USBError"
    by (rule grab_read_starved)
       (simp_all add: mock_packets_sizes mock_total length_buffer_of del: mock_simps(3))
  then have "grab (mock [buffer_of 3 0 (174960 - 200)]) = Inl USBError"
    by (simp add: grab_eq)
  then show ?thesis
    by (simp add: grab_mock_full length_buffer_of)
qed

section \<open>\<^verbatim>\<open>crop\<close>\<close>

lemma slice_nths:
  "lo \<le> hi \<Longrightarrow> hi \<le> length xs \<Longrightarrow> slice lo hi xs = map ((!) xs) [lo..<hi]"
  by (rule nth_equalityI) (simp_all add: slice_def)

lemma crop_nths:
  assumes h: "4 + HEIGHT \<le> length raw"
    and w: "\<forall>i<length raw. 1 + WIDTH \<le> length (raw ! i)"
  shows "crop raw = map (\<lambda>i. map (\<lambda>j. raw ! i ! j) [1..<1 + WIDTH]) [4..<4 + HEIGHT]"
proof -
  have "slice 4 (4 + HEIGHT) raw = map ((!) raw) [4..<4 + HEIGHT]"
    using h by (simp add: slice_nths)
  moreover have "slice 1 (1 + WIDTH) (raw ! i) = map ((!) (raw ! i)) [1..<1 + WIDTH]"
    if "i < 4 + HEIGHT" for i
    using that h w by (intro slice_nths) simp_all
  ultimately show ?thesis by (simp add: crop_def)
qed

lemma crop_raw_frame:
  assumes h: "length raw = RAW_HEIGHT" and w: "\<forall>row\<in>set raw. length row = RAW_WIDTH"
  shows "crop raw = map (\<lambda>i. map (\<lambda>j. raw ! i ! j) [1..<321]) [4..<244]"
proof -
  have "crop raw = map (\<lambda>i. map (\<lambda>j. raw ! i ! j) [1..<1 + WIDTH]) [4..<4 + HEIGHT]"
    using h w by (intro crop_nths) (simp_all add: RAW_HEIGHT_def RAW_WIDTH_def HEIGHT_def WIDTH_def)
  then show ?thesis by (simp add: HEIGHT_def WIDTH_def del: upt_rec_numeral)
qed

lemma crop_shape:
  assumes h: "length raw = RAW_HEIGHT" and w: "\<forall>row\<in>set raw. length row = RAW_WIDTH"
  shows "length (crop raw) = 240" and "\<forall>row\<in>set (crop raw). length row = 320"
  by (auto simp: crop_raw_frame [OF assms] simp del: upt_rec_numeral)

lemma crop_nth:
  assumes h: "length raw = RAW_HEIGHT" and w: "\<forall>row\<in>set raw. length row = RAW_WIDTH"
    and i: "i < 240" and j: "j < 320"
  shows "crop raw ! i ! j = raw ! (4 + i) ! (1 + j)"
  using i j by (simp add: crop_raw_frame [OF h w] del: upt_rec_numeral)

text \<open>
  C4, with the size the code has.  Every buffer of exactly \<open>2 * 342 * 260 = 177840\<close>
  bytes is a raw frame of 260 rows of 342 samples, and its crop has exactly 240 rows
  of 320 samples: the rows 4 (inclusive) to 244 (exclusive) and the columns 1
  (inclusive) to 321 (exclusive) of the frame, sample \<open>(i, j)\<close> of the crop being
  sample \<open>(4 + i, 1 + j)\<close> of the frame.
\<close>

theorem crop_exact:
  assumes "length bs = 177840"
  shows "\<exists>flat raw. frombuffer_u16 bs = Inr flat \<and> reshape RAW_HEIGHT RAW_WIDTH flat = Inr raw \<and>
           length raw = 260 \<and> (\<forall>row\<in>set raw. length row = 342) \<and>
           length (crop raw) = 240 \<and> (\<forall>row\<in>set (crop raw). length row = 320) \<and>
           crop raw = map (\<lambda>i. map (\<lambda>j. raw ! i ! j) [1..<321]) [4..<244] \<and>
           (\<forall>i<240. \<forall>j<320. crop raw ! i ! j = raw ! (4 + i) ! (1 + j))"
proof -
  let ?raw = "rows_of RAW_HEIGHT RAW_WIDTH (pairs_u16 bs)"
  have f: "frombuffer_u16 bs = Inr (pairs_u16 bs)"
    using assms by (simp add: frombuffer_u16_def)
  have r: "reshape RAW_HEIGHT RAW_WIDTH (pairs_u16 bs) = Inr ?raw"
    using assms by (simp add: reshape_def length_pairs_u16 RAW_HEIGHT_def RAW_WIDTH_def)
  have h: "length ?raw = RAW_HEIGHT" by (simp add: length_rows_of)
  have w: "\<forall>row\<in>set ?raw. length row = RAW_WIDTH"
    using grab_frame_shape(2) [OF assms] by (simp add: RAW_WIDTH_def)
  from f r h w crop_raw_frame [OF h w] crop_shape [OF h w] crop_nth [OF h w]
  show ?thesis by (simp add: RAW_HEIGHT_def RAW_WIDTH_def del: upt_rec_numeral)
qed

theorem crop_exact_witness:
  "\<exists>raw. reshape RAW_HEIGHT RAW_WIDTH (pairs_u16 (buffer_of 3 0 177840)) = Inr raw \<and>
     length (crop raw) = 240 \<and> (\<forall>row\<in>set (crop raw). length row = 320) \<and>
     crop raw ! 0 ! 0 = raw ! 4 ! 1 \<and> crop raw ! 239 ! 319 = raw ! 243 ! 320"
proof -
  have "length (buffer_of 3 0 177840) = 177840" by (simp add: length_buffer_of)
  from crop_exact [OF this] show ?thesis
    by (auto simp: frombuffer_u16_def simp del: upt_rec_numeral split: if_splits)
qed

theorem crop_short_buffer_counterexample:
  "length (replicate 174960 (0 :: byte)) = 174960 \<and>
   frombuffer_u16 (replicate 174960 0) = Inr (pairs_u16 (replicate 174960 0)) \<and>
   reshape RAW_HEIGHT RAW_WIDTH (pairs_u16 (replicate 174960 0)) = Inl ValueError"
  by (simp add: frombuffer_u16_def reshape_def length_pairs_u16 RAW_HEIGHT_def RAW_WIDTH_def)

section \<open>The neighbourhood of a dead pixel\<close>

lemma slice_clipped: "slice lo hi xs = map ((!) xs) [lo..<min hi (length xs)]"
proof (rule nth_equalityI)
  show "length (slice lo hi xs) = length (map ((!) xs) [lo..<min hi (length xs)])"
    by (auto simp: slice_def)
next
  fix k
  assume "k < length (slice lo hi xs)"
  then have k: "k < hi - lo" "k < length xs - lo" by (simp_all add: slice_def)
  then have "lo + k < min hi (length xs)" by arith
  then have "[lo..<min hi (length xs)] ! k = lo + k" by (rule nth_upt)
  with k show "slice lo hi xs ! k = map ((!) xs) [lo..<min hi (length xs)] ! k"
    by (simp add: slice_def)
qed

lemma window_rows:
  "window img i j =
     concat (map (\<lambda>r. map ((!) (img ! r)) [j - 1..<min (j + 2) (length (img ! r))])
                 [i - 1..<min (i + 2) (length img)])"
proof -
  have "nat (max 0 (int i - 1)) = i - 1" "nat (max 0 (int j - 1)) = j - 1" by simp_all
  then show ?thesis
    by (simp add: window_def slice_clipped comp_def)
qed

lemma window_neighbourhood:
  assumes "length img = h" and "\<forall>row\<in>set img. length row = w"
  shows "window img i j = map (\<lambda>(r, c). img ! r ! c) (neighbourhood h w i j)"
proof -
  have "map (\<lambda>r. map ((!) (img ! r)) [j - 1..<min (j + 2) (length (img ! r))])
            [i - 1..<min (i + 2) h]
        = map (\<lambda>r. map (\<lambda>c. img ! r ! c) [j - 1..<min (j + 2) w]) [i - 1..<min (i + 2) h]"
    by (rule map_cong [OF refl]) (use assms in simp)
  then have "window img i j
      = concat (map (\<lambda>r. map (\<lambda>c. img ! r ! c) [j - 1..<min (j + 2) w]) [i - 1..<min (i + 2) h])"
    unfolding window_rows assms(1) by (rule arg_cong)
  also have "\<dots> = map (\<lambda>(r, c). img ! r ! c) (neighbourhood h w i j)"
    by (simp add: neighbourhood_def map_concat comp_def)
  finally show ?thesis .
qed

lemma neighbourhood_set:
  "set (neighbourhood h w i j) =
     {(r, c). i - 1 \<le> r \<and> r < i + 2 \<and> r < h \<and> j - 1 \<le> c \<and> c < j + 2 \<and> c < w}"
  by (auto simp: neighbourhood_def)


section \<open>\<^verbatim>\<open>correct_dead_pix\<close> keeps the shape of the image\<close>

lemma fix_pixel_shape:
  assumes "fix_pixel img p = Inr img'"
  shows "map length img' = map length img"
proof -
  obtain i j where p: "p = (i, j)" by (cases p)
  with assms have b: "i < length img" "j < length (img ! i)"
    and e: "img' = img[i := (img ! i)[j := median (window img i j)]]"
    by (auto simp: fix_pixel_def split: if_splits)
  have "map length img' = (map length img)[i := length (img ! i)]"
    by (simp add: e map_update)
  also have "\<dots> = map length img"
    using b(1) by (simp add: list_update_same_conv)
  finally show ?thesis .
qed

lemma same_shape_length: "map length a = map length b \<Longrightarrow> length a = length b"
  by (drule arg_cong [where f = length]) simp

lemma same_shape_row:
  assumes "map length a = map length b" and "i < length b"
  shows "length (a ! i) = length (b ! i)"
proof -
  from same_shape_length [OF assms(1)] assms(2) have "i < length a" by simp
  then have "map length a ! i = length (a ! i)" by simp
  moreover from assms(2) have "map length b ! i = length (b ! i)" by simp
  ultimately show ?thesis using assms(1) by simp
qed

lemma correct_dead_pix_total:
  "\<forall>(i, j)\<in>set ps. i < length img \<and> j < length (img ! i) \<Longrightarrow>
   \<exists>img'. correct_dead_pix ps img = Inr img' \<and> map length img' = map length img"
proof (induction ps arbitrary: img)
  case Nil
  then show ?case by simp
next
  case (Cons p ps)
  obtain i j where p: "p = (i, j)" by (cases p)
  with Cons.prems have b: "i < length img" "j < length (img ! i)" by simp_all
  then obtain img1 where f: "fix_pixel img p = Inr img1"
    by (simp add: fix_pixel_def p)
  then have s: "map length img1 = map length img" by (rule fix_pixel_shape)
  have "\<forall>(i, j)\<in>set ps. i < length img1 \<and> j < length (img1 ! i)"
  proof (intro ballI, clarify)
    fix k l
    assume "(k, l) \<in> set ps"
    with Cons.prems have kl: "k < length img" "l < length (img ! k)" by auto
    from kl(1) have "k < length img1" by (simp add: same_shape_length [OF s])
    moreover from kl have "l < length (img1 ! k)" by (simp add: same_shape_row [OF s])
    ultimately show "k < length img1 \<and> l < length (img1 ! k)" ..
  qed
  from Cons.IH [OF this] obtain img' where
    "correct_dead_pix ps img1 = Inr img'" "map length img' = map length img1" by blast
  with f s show ?case by simp
qed




lemma rows_same_shape:
  assumes "map length a = map length b" and "\<forall>row\<in>set b. length row = w"
  shows "\<forall>row\<in>set a. length row = w"
proof
  fix row
  assume "row \<in> set a"
  then have "length row \<in> set (map length a)" by simp
  with assms(1) have "length row \<in> set (map length b)" by simp
  with assms(2) show "length row = w" by auto
qed





section \<open>The rounds of \<^verbatim>\<open>get_image\<close>\<close>

lemma get_image_error:
  "grab (dev s) = Inl e \<Longrightarrow> get_image s = Inl e"
  by (subst get_image.simps) simp

lemma get_image_calibration:
  "grab (dev s) = Inr ((1, Some raw), d') \<Longrightarrow>
   get_image s = get_image (s\<lparr>dev := d', calib := Some (sub_scalar (crop raw) 1600)\<rparr>)"
  by (subst get_image.simps) simp

lemma get_image_calibration_absent:
  "grab (dev s) = Inr ((1, None), d') \<Longrightarrow> get_image s = Inl TypeError"
  by (subst get_image.simps) simp

lemma get_image_uncalibrated:
  "grab (dev s) = Inr ((3, img), d') \<Longrightarrow> calib s = None \<Longrightarrow>
   get_image s = get_image (s\<lparr>dev := d'\<rparr>)"
  by (subst get_image.simps) simp

lemma get_image_normal:
  "grab (dev s) = Inr ((3, Some raw), d') \<Longrightarrow> calib s = Some c \<Longrightarrow>
   dead_pixels s = Some dp \<Longrightarrow>
   get_image s =
     (case correct_dead_pix dp (sub_grid (crop raw) c) of
        Inl e \<Rightarrow> Inl e
      | Inr out \<Rightarrow> Inr (out, s\<lparr>dev := d'\<rparr>))"
  by (subst get_image.simps) simp

lemma get_image_normal_absent:
  "grab (dev s) = Inr ((3, None), d') \<Longrightarrow> calib s = Some c \<Longrightarrow>
   get_image s = Inl TypeError"
  by (subst get_image.simps) simp

lemma get_image_other:
  "grab (dev s) = Inr ((st, img), d') \<Longrightarrow> st \<noteq> 1 \<Longrightarrow> st \<noteq> 3 \<Longrightarrow>
   get_image s = get_image (s\<lparr>dev := d'\<rparr>)"
  by (subst get_image.simps) simp

lemma grabs_Cons: "grab d = Inr (r, d') \<Longrightarrow> grabs d = r # grabs d'"
  by (subst grabs.simps) simp

lemma get_image_trace:
  "get_image s = Inr (out, s') \<Longrightarrow>
   \<exists>pre raw c dp.
     grabs (dev s) = pre @ (3, Some raw) # grabs (dev s') \<and>
     (1, None) \<notin> set pre \<and>
     calib_after (calib s) pre = Some c \<and>
     dead_pixels s = Some dp \<and>
     correct_dead_pix dp (sub_grid (crop raw) c) = Inr out \<and>
     s' = s\<lparr>dev := dev s', calib := Some c\<rparr>"
proof (induction "length (bulk_in (dev s))" arbitrary: s rule: less_induct)
  case less
  show ?case
  proof (cases "grab (dev s)")
    case (Inl e)
    with less.prems show ?thesis by (simp add: get_image_error)
  next
    case (Inr r)
    obtain st img d' where r: "r = ((st, img), d')" by (cases r) auto
    with Inr have g: "grab (dev s) = Inr ((st, img), d')" by simp
    then have gs: "grabs (dev s) = (st, img) # grabs d'" by (rule grabs_Cons)
    from g have sh: "length (bulk_in d') < length (bulk_in (dev s))" by (rule grab_shrinks)
    have step: ?thesis
      if n: "get_image s = get_image s1" and d1: "dev s1 = d'"
        and c1: "calib_after (calib s) [(st, img)] = calib s1"
        and e1: "s1 = s\<lparr>dev := d', calib := calib s1\<rparr>"
        and na: "(st, img) \<noteq> (1, None)" for s1
    proof -
      from n less.prems have "get_image s1 = Inr (out, s')" by simp
      moreover from sh d1 have "length (bulk_in (dev s1)) < length (bulk_in (dev s))" by simp
      ultimately obtain pre raw c dp where
        p: "grabs (dev s1) = pre @ (3, Some raw) # grabs (dev s')"
          "(1, None) \<notin> set pre"
          "calib_after (calib s1) pre = Some c" "dead_pixels s1 = Some dp"
          "correct_dead_pix dp (sub_grid (crop raw) c) = Inr out"
          "s' = s1\<lparr>dev := dev s', calib := Some c\<rparr>"
        using less.hyps by blast
      have "grabs (dev s) = ((st, img) # pre) @ (3, Some raw) # grabs (dev s')"
        using gs p(1) d1 by simp
      moreover have "(1, None) \<notin> set ((st, img) # pre)" using p(2) na by auto
      moreover have "calib_after (calib s) ((st, img) # pre) = Some c"
        using c1 p(3) by (simp split: if_splits option.splits)
      moreover have "dead_pixels s = Some dp"
        using p(4) by (subst (asm) e1) simp
      moreover have "s' = s\<lparr>dev := dev s', calib := Some c\<rparr>"
        using p(6) by (subst (asm) e1) simp
      ultimately show ?thesis using p(5) by blast
    qed
    consider (cal) "st = 1" | (norm) "st = 3" | (other) "st \<noteq> 1" "st \<noteq> 3" by blast
    then show ?thesis
    proof cases
      case cal
      show ?thesis
      proof (cases img)
        case None
        with g cal less.prems show ?thesis by (simp add: get_image_calibration_absent)
      next
        case (Some raw1)
        show ?thesis
          by (rule step [of "s\<lparr>dev := d', calib := Some (sub_scalar (crop raw1) 1600)\<rparr>"])
             (use g cal Some in \<open>simp_all add: get_image_calibration\<close>)
      qed
    next
      case norm
      show ?thesis
      proof (cases "calib s")
        case None
        show ?thesis
          by (rule step [of "s\<lparr>dev := d'\<rparr>"])
             (use g norm None in \<open>simp_all add: get_image_uncalibrated\<close>)
      next
        case (Some c)
        show ?thesis
        proof (cases img)
          case None
          with g norm Some less.prems show ?thesis by (simp add: get_image_normal_absent)
        next
          case raw: (Some raw)
          show ?thesis
          proof (cases "dead_pixels s")
            case None
            with g norm Some raw less.prems show ?thesis
              by (subst (asm) get_image.simps) simp
          next
            case dp: (Some dp)
            from g norm raw have g3: "grab (dev s) = Inr ((3, Some raw), d')" by simp
            from less.prems have o: "correct_dead_pix dp (sub_grid (crop raw) c) = Inr out"
              and s': "s' = s\<lparr>dev := d'\<rparr>"
              by (auto simp: get_image_normal [OF g3 Some dp] split: sum.splits)
            have "grabs (dev s) = [] @ (3, Some raw) # grabs (dev s')"
              using gs norm raw s' by simp
            moreover have "calib_after (calib s) [] = Some c" using Some by simp
            moreover have "s' = s\<lparr>dev := dev s', calib := Some c\<rparr>"
              using s' Some by simp
            moreover have "(1, None) \<notin> set ([] :: (byte \<times> grid option) list)" by simp
            ultimately show ?thesis using dp o by blast
          qed
        qed
      qed
    next
      case other
      show ?thesis
        by (rule step [of "s\<lparr>dev := d'\<rparr>"])
           (use g other in \<open>simp_all add: get_image_other\<close>)
    qed
  qed
qed

section \<open>Sessions on simulated devices\<close>

lemma mock_replay: "mock bufs = replay [] bufs"
  by (simp add: mock_def replay_def)

lemma replay_simps [simp]:
  "ctrl_reply (replay log bufs) n req data = Inr (length data)"
  "sent (replay log bufs) = log"
  "bulk_in (replay log bufs) = concat (map packets bufs)"
  by (simp_all add: replay_def)

lemma replay_update:
  "(replay log bufs)\<lparr>sent := log', bulk_in := concat (map packets bufs')\<rparr> = replay log' bufs'"
  by (simp add: replay_def)

lemma grab_replay:
  assumes "length b = 177840"
  shows "grab (replay log (b # bufs)) =
           Inr ((b ! 4, Some (rows_of RAW_HEIGHT RAW_WIDTH (pairs_u16 b))),
                replay (log @ [(START_GET_IMAGE_TRANSFER, [0x58, 0x5b, 0x01, 0x00])]) bufs)"
  using grab_delivers [of "replay log (b # bufs)" b "concat (map packets bufs)"] assms
  by (simp add: replay_update)

lemma grab_replay_short:
  assumes "177328 \<le> length b" and "length b < 177840"
    and "length b mod 13680 = 0 \<or> 512 < length b mod 13680"
  shows "grab (replay log (b # bufs)) =
           Inr ((b ! 4, None),
                replay (log @ [(START_GET_IMAGE_TRANSFER, [0x58, 0x5b, 0x01, 0x00])]) bufs)"
  using grab_delivers [of "replay log (b # bufs)" b "concat (map packets bufs)"] assms
  by (simp add: replay_update)

lemma grab_replay_empty: "grab (replay log []) = Inl USBError"
proof -
  have "grab_read (replay log []) = Inl USBError"
    by (rule grab_read_starved) simp_all
  then show ?thesis by (simp add: grab_eq)
qed

lemma calib_after_snoc:
  "calib_after c (fs @ [(st, img)]) =
     (if st = 1 then (case img of None \<Rightarrow> calib_after c fs
                      | Some raw \<Rightarrow> Some (sub_scalar (crop raw) 1600))
      else calib_after c fs)"
  by (induction c fs rule: calib_after.induct) (simp_all split: option.splits)

lemma calib_after_origin:
  "calib_after None pre = Some c \<Longrightarrow> (1, None) \<notin> set pre \<Longrightarrow>
   \<exists>p1 raw1 post. pre = p1 @ (1, Some raw1) # post \<and> (\<forall>f\<in>set post. fst f \<noteq> 1) \<and>
      c = sub_scalar (crop raw1) 1600"
proof (induction pre rule: rev_induct)
  case Nil
  then show ?case by simp
next
  case (snoc x xs)
  obtain st img where x: "x = (st, img)" by (cases x)
  show ?case
  proof (cases "st = 1")
    case True
    with snoc.prems(2) x obtain raw1 where i: "img = Some raw1" by (cases img) auto
    with snoc.prems(1) x True have "c = sub_scalar (crop raw1) 1600"
      by (simp add: calib_after_snoc)
    with x True i have "xs @ [x] = xs @ (1, Some raw1) # [] \<and>
        (\<forall>f\<in>set ([] :: (byte \<times> grid option) list). fst f \<noteq> 1) \<and>
        c = sub_scalar (crop raw1) 1600"
      by simp
    then show ?thesis by blast
  next
    case False
    with snoc.prems x have "calib_after None xs = Some c" "(1, None) \<notin> set xs"
      by (simp_all add: calib_after_snoc)
    from snoc.IH [OF this] obtain p1 raw1 post where
      p: "xs = p1 @ (1, Some raw1) # post" "\<forall>f\<in>set post. fst f \<noteq> 1"
        "c = sub_scalar (crop raw1) 1600"
      by blast
    from p(1) have "xs @ [x] = p1 @ (1, Some raw1) # (post @ [x])" by simp
    moreover from p(2) x False have "\<forall>f\<in>set (post @ [x]). fst f \<noteq> 1" by simp
    ultimately show ?thesis using p(3) by blast
  qed
qed

lemma grab_mock_buffer:
  "grab (replay log (buffer_of st v 177840 # bufs)) =
     Inr ((st, Some (rows_of RAW_HEIGHT RAW_WIDTH (pairs_u16 (buffer_of st v 177840)))),
          replay (log @ [(START_GET_IMAGE_TRANSFER, [0x58, 0x5b, 0x01, 0x00])]) bufs)"
  using grab_replay [of "buffer_of st v 177840" log bufs]
  by (simp add: length_buffer_of buffer_of_status)

lemma grab_mock_short_buffer:
  "grab (replay log (buffer_of st v 177640 # bufs)) =
     Inr ((st, None),
          replay (log @ [(START_GET_IMAGE_TRANSFER, [0x58, 0x5b, 0x01, 0x00])]) bufs)"
  using grab_replay_short [of "buffer_of st v 177640" log bufs]
  by (simp add: length_buffer_of buffer_of_status)

section \<open>A frame that is absent\<close>

text \<open>
  C3 fails on a frame that \<^verbatim>\<open>grab\<close> reports absent with status 1, or with status 3
  once a reference is there: \<^verbatim>\<open>get_image\<close> passes \<^verbatim>\<open>None\<close> to \<^verbatim>\<open>crop\<close>, which
  raises.  Here a device delivers a calibration frame that is 200 bytes short, and
  another one a complete calibration frame followed by a normal frame that is 200
  bytes short.
\<close>

theorem get_image_absent_frame_raises:
  "grab (mock [buffer_of 1 0 177640])
     = Inr ((1, None), replay [(START_GET_IMAGE_TRANSFER, [0x58, 0x5b, 0x01, 0x00])] []) \<and>
   get_image \<lparr>dev = mock [buffer_of 1 0 177640], calib = None, dead_pixels = Some [],
              printed = []\<rparr> = Inl TypeError \<and>
   get_image \<lparr>dev = mock [buffer_of 1 0 177840, buffer_of 3 0 177640], calib = None,
              dead_pixels = Some [], printed = []\<rparr> = Inl TypeError"
proof -
  let ?m = "(START_GET_IMAGE_TRANSFER, [0x58, 0x5b, 0x01, 0x00 :: byte])"
  let ?c = "rows_of RAW_HEIGHT RAW_WIDTH (pairs_u16 (buffer_of 1 0 177840))"
  let ?k = "sub_scalar (crop ?c) 1600"
  have g: "grab (mock [buffer_of 1 0 177640]) = Inr ((1, None), replay [?m] [])"
    by (simp add: mock_replay grab_mock_short_buffer)
  have a: "get_image \<lparr>dev = mock [buffer_of 1 0 177640], calib = None, dead_pixels = Some [],
              printed = []\<rparr> = Inl TypeError"
    by (rule get_image_calibration_absent [where d' = "replay [?m] []"]) (simp add: g)
  let ?sa = "\<lparr>dev = replay [] [buffer_of 1 0 177840, buffer_of 3 0 177640], calib = None,
              dead_pixels = Some [], printed = []\<rparr>"
  let ?sb = "\<lparr>dev = replay [?m] [buffer_of 3 0 177640], calib = Some ?k,
              dead_pixels = Some [], printed = []\<rparr>"
  have "get_image ?sa = get_image ?sb"
    using get_image_calibration [of ?sa ?c "replay [?m] [buffer_of 3 0 177640]"]
    by (simp add: grab_mock_buffer)
  moreover have "get_image ?sb = Inl TypeError"
    by (rule get_image_normal_absent [where d' = "replay [?m, ?m] []" and c = ?k])
       (simp_all add: grab_mock_short_buffer)
  ultimately show ?thesis using g a by (simp add: mock_replay)
qed

section \<open>Shapes in a session\<close>

lemma grab_frame_present:
  assumes "grab d = Inr ((st, Some raw), d')"
  shows "length raw = RAW_HEIGHT" and "\<forall>row\<in>set raw. length row = RAW_WIDTH"
proof -
  from assms obtain ret where r: "grab_read d = Inr (ret, d')"
    by (auto simp: grab_eq split: sum.splits)
  with assms have l: "length ret = 177840"
    and e: "raw = rows_of RAW_HEIGHT RAW_WIDTH (pairs_u16 ret)"
    by (auto simp: grab_eq split: if_splits)
  from grab_frame_shape [OF l] e
  show "length raw = RAW_HEIGHT" and "\<forall>row\<in>set raw. length row = RAW_WIDTH"
    by (simp_all add: RAW_HEIGHT_def RAW_WIDTH_def)
qed

lemma crop_frame_shape:
  assumes "length raw = RAW_HEIGHT" and "\<forall>row\<in>set raw. length row = RAW_WIDTH"
  shows "length (crop raw) = HEIGHT" and "\<forall>row\<in>set (crop raw). length row = WIDTH"
  using crop_shape [OF assms] by (simp_all add: HEIGHT_def WIDTH_def)

lemma sub_scalar_shape:
  "length (sub_scalar g c) = length g"
  "(\<forall>row\<in>set g. length row = w) \<Longrightarrow> \<forall>row\<in>set (sub_scalar g c). length row = w"
  by (auto simp: sub_scalar_def)

lemma sub_grid_shape:
  assumes "length a = h" and "length b = h"
    and "\<forall>row\<in>set a. length row = w" and "\<forall>row\<in>set b. length row = w"
  shows "length (sub_grid a b) = h" and "\<forall>row\<in>set (sub_grid a b). length row = w"
proof -
  show "length (sub_grid a b) = h" using assms(1,2) by (simp add: sub_grid_def)
  show "\<forall>row\<in>set (sub_grid a b). length row = w"
  proof
    fix row
    assume "row \<in> set (sub_grid a b)"
    then obtain x y where "(x, y) \<in> set (zip a b)" "row = map2 (-) x y"
      by (auto simp: sub_grid_def)
    moreover from this(1) have "x \<in> set a" "y \<in> set b"
      by (auto dest: set_zip_leftD set_zip_rightD)
    ultimately show "length row = w" using assms(3,4) by simp
  qed
qed

lemma sub_grid_nth:
  assumes "i < length a" and "i < length b" and "j < length (a ! i)" and "j < length (b ! i)"
  shows "sub_grid a b ! i ! j = a ! i ! j - b ! i ! j"
  using assms by (simp add: sub_grid_def)

lemma sub_scalar_nth:
  assumes "i < length g" and "j < length (g ! i)"
  shows "sub_scalar g c ! i ! j = g ! i ! j - c"
  using assms by (simp add: sub_scalar_def)

lemma where_lt_bounds:
  "(i, j) \<in> set (where_lt img t) \<longleftrightarrow> i < length img \<and> j < length (img ! i) \<and> img ! i ! j < t"
  by (auto simp: where_lt_def)

section \<open>The discovery of the dead pixels\<close>

lemma send_msg_log:
  assumes "send_msg d req data = Inr d'"
  shows "d' = d\<lparr>sent := sent d @ [(req, data)]\<rparr>"
  using assms by (auto simp: send_msg_def ctrl_transfer_def split: sum.splits if_splits)

lemma send_all_log:
  "send_all ms d = Inr d' \<Longrightarrow> d' = d\<lparr>sent := sent d @ ms\<rparr>"
proof (induction ms arbitrary: d)
  case Nil
  then show ?case by simp
next
  case (Cons m ms)
  obtain req data where m: "m = (req, data)" by (cases m)
  with Cons.prems obtain d1 where a: "send_msg d req data = Inr d1"
    and b: "send_all ms d1 = Inr d'"
    by (auto split: sum.splits)
  from Cons.IH [OF b] send_msg_log [OF a] m show ?case by simp
qed

lemma send_all_acknowledged:
  "\<forall>n req data. ctrl_reply d n req data = Inr (length data) \<Longrightarrow>
   send_all ms d = Inr (d\<lparr>sent := sent d @ ms\<rparr>)"
proof (induction ms arbitrary: d)
  case Nil
  then show ?case by simp
next
  case (Cons m ms)
  obtain req data where m: "m = (req, data)" by (cases m)
  let ?d1 = "d\<lparr>sent := sent d @ [(req, data)]\<rparr>"
  from Cons.prems have a: "send_msg d req data = Inr ?d1"
    by (simp add: send_msg_def ctrl_transfer_def)
  from Cons.prems have "\<forall>n req data. ctrl_reply ?d1 n req data = Inr (length data)" by simp
  from Cons.IH [OF this] a m show ?case by simp
qed

lemma init_replay: "init (replay log bufs) = Inr (replay (log @ init_sequence) bufs)"
  using send_all_acknowledged [of "replay log bufs" init_sequence]
  by (simp add: init_def) (simp add: replay_def)

lemma dev_read_log: "dev_read d sz = Inr (p, d') \<Longrightarrow> sent d' = sent d"
  by (auto simp: dev_read_def split: list.splits if_splits)

lemma read_loop_log: "read_loop d ret = Inr (ret', d') \<Longrightarrow> sent d' = sent d"
proof (induction d ret rule: read_loop.induct)
  case (1 d ret)
  show ?case
  proof (cases "toread - int (length ret) > 512")
    case True
    with "1.prems" obtain chunk d1 where
      r: "dev_read d 13680 = Inr (chunk, d1)" and
      l: "read_loop d1 (ret @ chunk) = Inr (ret', d')"
      by (subst (asm) read_loop.simps) (auto split: sum.splits)
    from "1.IH" [OF True r refl l] dev_read_log [OF r] show ?thesis by simp
  next
    case False
    with "1.prems" show ?thesis by (simp add: read_loop_stop)
  qed
qed

lemma grab_log:
  assumes "grab d = Inr (r, d')"
  shows "sent d' = sent d @ [(START_GET_IMAGE_TRANSFER, [0x58, 0x5b, 0x01, 0x00])]"
proof -
  from assms obtain ret where "grab_read d = Inr (ret, d')"
    by (auto simp: grab_eq split: sum.splits)
  then obtain d1 p d2 where
    a: "send_msg d START_GET_IMAGE_TRANSFER [0x58, 0x5b, 0x01, 0x00] = Inr d1"
    and b: "dev_read d1 13680 = Inr (p, d2)" and c: "read_loop d2 p = Inr (ret, d')"
    by (auto simp: grab_read_def split: sum.splits)
  from send_msg_log [OF a] dev_read_log [OF b] read_loop_log [OF c] show ?thesis by simp
qed

lemma attempt_log:
  assumes "attempt d = Inr (r, d')"
  shows "sent d' = sent d @ init_sequence @ [(START_GET_IMAGE_TRANSFER, [0x58, 0x5b, 0x01, 0x00])]"
proof -
  from assms obtain d1 where a: "init d = Inr d1" and b: "grab d1 = Inr (r, d')"
    by (auto simp: attempt_def split: sum.splits)
  from a have "d1 = d\<lparr>sent := sent d @ init_sequence\<rparr>"
    unfolding init_def by (rule send_all_log)
  with grab_log [OF b] show ?thesis by simp
qed

lemma attempt_replay:
  "attempt (replay log (buffer_of st v 177840 # bufs)) =
     Inr ((st, Some (rows_of RAW_HEIGHT RAW_WIDTH (pairs_u16 (buffer_of st v 177840)))),
          replay (log @ init_sequence @ [(START_GET_IMAGE_TRANSFER, [0x58, 0x5b, 0x01, 0x00])]) bufs)"
  by (simp add: attempt_def init_replay grab_mock_buffer)

lemma attempt_replay_empty: "attempt (replay log []) = Inl USBError"
  by (simp add: attempt_def init_replay grab_replay_empty)

lemma rows_of_shape:
  assumes "length xs = h * w"
  shows "length (rows_of h w xs) = h" and "\<forall>row\<in>set (rows_of h w xs). length row = w"
proof -
  show "length (rows_of h w xs) = h" by (rule length_rows_of)
  from rows_of_row_length [OF assms]
  show "\<forall>row\<in>set (rows_of h w xs). length row = w"
    by (auto simp: in_set_conv_nth length_rows_of)
qed

lemma rows_of_concat:
  "length g = h \<Longrightarrow> \<forall>row\<in>set g. length row = w \<Longrightarrow> rows_of h w (concat g) = g"
  by (induction g arbitrary: h) auto

lemma get_dead_pix_list_frame:
  assumes "length raw = RAW_HEIGHT" and "\<forall>row\<in>set raw. length row = RAW_WIDTH"
  shows "get_dead_pix_list (Some raw) = Inr (where_lt (crop raw) 100)"
proof -
  have "length (concat raw) = RAW_HEIGHT * RAW_WIDTH"
    using assms by (simp add: length_concat sum_list_triv cong: map_cong)
  then show ?thesis
    using assms by (simp add: get_dead_pix_list_def reshape_def rows_of_concat)
qed

lemma discovery_loop_found:
  "\<forall>i\<in>set xs. i \<noteq> 4 \<Longrightarrow>
   attempts (length xs) (dev s) = pre @ (4, Some raw) # post \<Longrightarrow>
   \<forall>f\<in>set pre. fst f \<noteq> 4 \<Longrightarrow>
   \<exists>d'. discovery_loop (xs @ rest) s
          = Inr (s\<lparr>dev := d', dead_pixels := Some (where_lt (crop raw) 100)\<rparr>)"
proof (induction xs arbitrary: s pre)
  case Nil
  then show ?case by simp
next
  case (Cons i xs)
  from Cons.prems(1) have i: "i \<noteq> 4" by simp
  from Cons.prems(2) obtain r d2 where a: "attempt (dev s) = Inr (r, d2)"
    and t: "r # attempts (length xs) d2 = pre @ (4, Some raw) # post"
    by (cases "attempt (dev s)") auto
  from a obtain d1 where n: "init (dev s) = Inr d1" and g: "grab d1 = Inr (r, d2)"
    by (auto simp: attempt_def split: sum.splits)
  show ?case
  proof (cases pre)
    case Nil
    with t have r: "r = (4, Some raw)" by simp
    with g have "length raw = RAW_HEIGHT" "\<forall>row\<in>set raw. length row = RAW_WIDTH"
      by (auto dest: grab_frame_present)
    then have "get_dead_pix_list (Some raw) = Inr (where_lt (crop raw) 100)"
      by (rule get_dead_pix_list_frame)
    with i n g r have "discovery_loop ((i # xs) @ rest) s
        = Inr (s\<lparr>dev := d2, dead_pixels := Some (where_lt (crop raw) 100)\<rparr>)"
      by simp
    then show ?thesis by (rule exI)
  next
    case (Cons p pre')
    with t have r: "r = p" and t': "attempts (length xs) d2 = pre' @ (4, Some raw) # post"
      by simp_all
    from Cons Cons.prems(3) have p: "fst p \<noteq> 4" and q: "\<forall>f\<in>set pre'. fst f \<noteq> 4"
      by simp_all
    have "\<exists>d'. discovery_loop (xs @ rest) (s\<lparr>dev := d2\<rparr>)
        = Inr (s\<lparr>dev := d2\<rparr>\<lparr>dev := d', dead_pixels := Some (where_lt (crop raw) 100)\<rparr>)"
      by (rule Cons.IH) (use Cons.prems(1) t' q in simp_all)
    then obtain d' where "discovery_loop (xs @ rest) (s\<lparr>dev := d2\<rparr>)
        = Inr (s\<lparr>dev := d', dead_pixels := Some (where_lt (crop raw) 100)\<rparr>)"
      by auto
    moreover obtain st ret where "p = (st, ret)" by (cases p)
    ultimately show ?thesis using i n g r p by auto
  qed
qed

lemma discovery_loop_gives_up:
  "\<forall>i\<in>set xs. i \<noteq> 4 \<Longrightarrow>
   length (attempts (length xs) (dev s)) = length xs \<Longrightarrow>
   \<forall>f\<in>set (attempts (length xs) (dev s)). fst f \<noteq> 4 \<Longrightarrow>
   \<exists>d'. discovery_loop (xs @ 4 # rest) s
          = Inr (s\<lparr>dev := d', dead_pixels := Some [],
                   printed := printed s @ [''Could not get the dead pixels frame!'']\<rparr>)"
proof (induction xs arbitrary: s)
  case Nil
  have "discovery_loop ([] @ 4 # rest) s
      = Inr (s\<lparr>dev := dev s, dead_pixels := Some [],
               printed := printed s @ [''Could not get the dead pixels frame!'']\<rparr>)"
    by simp
  then show ?case by (rule exI)
next
  case (Cons i xs)
  from Cons.prems(1) have i: "i \<noteq> 4" by simp
  from Cons.prems(2) obtain r d2 where a: "attempt (dev s) = Inr (r, d2)"
    by (cases "attempt (dev s)") auto
  from a obtain d1 where n: "init (dev s) = Inr d1" and g: "grab d1 = Inr (r, d2)"
    by (auto simp: attempt_def split: sum.splits)
  obtain st ret where r: "r = (st, ret)" by (cases r)
  from a r Cons.prems(2,3) have st: "st \<noteq> 4"
    and l: "length (attempts (length xs) d2) = length xs"
    and f: "\<forall>f\<in>set (attempts (length xs) d2). fst f \<noteq> 4"
    by simp_all
  have "\<exists>d'. discovery_loop (xs @ 4 # rest) (s\<lparr>dev := d2\<rparr>)
        = Inr (s\<lparr>dev := d2\<rparr>\<lparr>dev := d', dead_pixels := Some [],
             printed := printed (s\<lparr>dev := d2\<rparr>) @ [''Could not get the dead pixels frame!'']\<rparr>)"
    by (rule Cons.IH) (use Cons.prems(1) l f in simp_all)
  then obtain d' where "discovery_loop (xs @ 4 # rest) (s\<lparr>dev := d2\<rparr>)
        = Inr (s\<lparr>dev := d', dead_pixels := Some [],
             printed := printed s @ [''Could not get the dead pixels frame!'']\<rparr>)"
    by auto
  with i n g r st show ?case by auto
qed

lemma discovery_loop_log:
  "discovery_loop is s = Inr s' \<Longrightarrow>
   \<exists>k\<le>length (takeWhile (\<lambda>i. i \<noteq> 4) is).
     sent (dev s') = sent (dev s) @
       concat (replicate k (init_sequence @ [(START_GET_IMAGE_TRANSFER, [0x58, 0x5b, 0x01, 0x00])]))"
proof (induction "is" arbitrary: s)
  case Nil
  then show ?case by simp
next
  case (Cons i "is")
  show ?case
  proof (cases "i = 4")
    case True
    with Cons.prems show ?thesis by auto
  next
    case False
    with Cons.prems obtain d1 st ret d2 where
      n: "init (dev s) = Inr d1" and g: "grab d1 = Inr ((st, ret), d2)"
      by (auto split: sum.splits)
    then have "attempt (dev s) = Inr ((st, ret), d2)" by (simp add: attempt_def)
    then have lg: "sent d2 = sent (dev s) @ init_sequence @
        [(START_GET_IMAGE_TRANSFER, [0x58, 0x5b, 0x01, 0x00])]"
      by (rule attempt_log)
    show ?thesis
    proof (cases "st = 4")
      case True
      with Cons.prems False n g have "dev s' = d2" by (auto split: sum.splits)
      with lg have "sent (dev s') = sent (dev s) @
          concat (replicate 1 (init_sequence @ [(START_GET_IMAGE_TRANSFER, [0x58, 0x5b, 0x01, 0x00])]))"
        by simp
      moreover have "1 \<le> length (takeWhile (\<lambda>i. i \<noteq> 4) (i # is))" using False by simp
      ultimately show ?thesis by blast
    next
      case st: False
      with Cons.prems False n g have "discovery_loop is (s\<lparr>dev := d2\<rparr>) = Inr s'" by simp
      from Cons.IH [OF this] obtain k where k: "k \<le> length (takeWhile (\<lambda>i. i \<noteq> 4) is)"
        and e: "sent (dev s') = sent d2 @
          concat (replicate k (init_sequence @ [(START_GET_IMAGE_TRANSFER, [0x58, 0x5b, 0x01, 0x00])]))"
        by auto
      from e lg have "sent (dev s') = sent (dev s) @
          concat (replicate (Suc k) (init_sequence @ [(START_GET_IMAGE_TRANSFER, [0x58, 0x5b, 0x01, 0x00])]))"
        by simp
      moreover from k False have "Suc k \<le> length (takeWhile (\<lambda>i. i \<noteq> 4) (i # is))" by simp
      ultimately show ?thesis by blast
    qed
  qed
qed

lemma range5: "[0..<5] = [0, 1, 2, 3] @ 4 # []"
  by (simp add: upt_rec)

lemma attempts_frame_shape:
  "(st, Some raw) \<in> set (attempts n d) \<Longrightarrow>
   length raw = RAW_HEIGHT \<and> (\<forall>row\<in>set raw. length row = RAW_WIDTH)"
proof (induction n arbitrary: d)
  case 0
  then show ?case by simp
next
  case (Suc n)
  then obtain r d2 where a: "attempt d = Inr (r, d2)"
    and m: "(st, Some raw) = r \<or> (st, Some raw) \<in> set (attempts n d2)"
    by (cases "attempt d") auto
  from m show ?case
  proof
    assume "(st, Some raw) = r"
    with a obtain d1 where "grab d1 = Inr ((st, Some raw), d2)"
      by (auto simp: attempt_def split: sum.splits)
    then show ?thesis by (auto dest: grab_frame_present)
  next
    assume "(st, Some raw) \<in> set (attempts n d2)"
    then show ?thesis by (rule Suc.IH)
  qed
qed

lemma where_lt_product:
  assumes "length img = h" and "\<forall>row\<in>set img. length row = w"
  shows "where_lt img t = filter (\<lambda>(i, j). img ! i ! j < t) (List.product [0..<h] [0..<w])"
proof -
  have "map (\<lambda>i. map (Pair i) (filter (\<lambda>j. img ! i ! j < t) [0..<length (img ! i)])) [0..<h]
      = map (\<lambda>i. filter (\<lambda>(i, j). img ! i ! j < t) (map (Pair i) [0..<w])) [0..<h]"
    by (rule map_cong [OF refl]) (use assms in \<open>simp add: filter_map comp_def\<close>)
  then have "where_lt img t
      = concat (map (\<lambda>i. filter (\<lambda>(i, j). img ! i ! j < t) (map (Pair i) [0..<w])) [0..<h])"
    unfolding where_lt_def assms(1) by (rule arg_cong)
  also have "\<dots> = filter (\<lambda>(i, j). img ! i ! j < t) (List.product [0..<h] [0..<w])"
    by (simp add: product_concat_map filter_concat comp_def)
  finally show ?thesis .
qed

lemma pairs_u16_nth:
  "2 * k + 1 < length bs \<Longrightarrow>
   pairs_u16 bs ! k = ucast (bs ! (2 * k)) OR push_bit 8 (ucast (bs ! (2 * k + 1)))"
proof (induction bs arbitrary: k rule: pairs_u16.induct)
  case (1 lo hi bs)
  show ?case
  proof (cases k)
    case 0
    then show ?thesis by simp
  next
    case (Suc n)
    with "1.prems" have "2 * n + 1 < length bs" by simp
    from "1.IH" [OF this] Suc show ?thesis by simp
  qed
qed simp_all

lemma dead_list_of_frame:
  assumes "length raw = RAW_HEIGHT" and "\<forall>row\<in>set raw. length row = RAW_WIDTH"
  shows "where_lt (crop raw) 100 =
           filter (\<lambda>(i, j). raw ! (4 + i) ! (1 + j) < 100) (List.product [0..<240] [0..<320])"
proof -
  have "where_lt (crop raw) 100 =
      filter (\<lambda>(i, j). crop raw ! i ! j < 100) (List.product [0..<240] [0..<320])"
    using crop_shape [OF assms] by (rule where_lt_product)
  also have "\<dots> = filter (\<lambda>(i, j). raw ! (4 + i) ! (1 + j) < 100) (List.product [0..<240] [0..<320])"
    by (rule filter_cong [OF refl]) (auto simp: crop_nth [OF assms] simp del: upt_rec_numeral)
  finally show ?thesis .
qed

text \<open>
  C8, as the code has it.  Of the five passes of \<^verbatim>\<open>for i in range(5)\<close> the last one
  gives up, so the discovery makes at most four attempts (\<^verbatim>\<open>init\<close> then \<^verbatim>\<open>grab\<close>).
  When one of the four attempts returns status 4 with its frame, the earlier ones
  having returned another status, the discovery succeeds: the list is the
  coordinates, row by row, of the samples below 100 of the cropped frame, and nothing
  is printed.  When the four attempts all return a status other than 4, the list is
  empty, the warning is printed and no error is raised.  In both cases the control
  writes sent are those of at most four attempts.
\<close>

theorem discovery_four_attempts:
  "(attempts 4 d = pre @ (4, Some raw) # post \<and> (\<forall>f\<in>set pre. fst f \<noteq> 4) \<longrightarrow>
      (\<exists>d'. SeekPro_init (Some d) =
         Inr \<lparr>dev = d', calib = None, dead_pixels = Some (where_lt (crop raw) 100),
              printed = []\<rparr>) \<and>
      where_lt (crop raw) 100 =
        filter (\<lambda>(i, j). raw ! (4 + i) ! (1 + j) < 100) (List.product [0..<240] [0..<320])) \<and>
   (length (attempts 4 d) = 4 \<and> (\<forall>f\<in>set (attempts 4 d). fst f \<noteq> 4) \<longrightarrow>
      (\<exists>d'. SeekPro_init (Some d) =
         Inr \<lparr>dev = d', calib = None, dead_pixels = Some [],
              printed = [''Could not get the dead pixels frame!'']\<rparr>)) \<and>
   (SeekPro_init (Some d) = Inr s \<longrightarrow>
      (\<exists>k\<le>4. sent (dev s) = sent d @
         concat (replicate k
           (init_sequence @ [(START_GET_IMAGE_TRANSFER, [0x58, 0x5b, 0x01, 0x00])]))))"
proof (intro conjI impI)
  let ?s = "\<lparr>dev = d, calib = None, dead_pixels = None, printed = []\<rparr>"
  assume a: "attempts 4 d = pre @ (4, Some raw) # post \<and> (\<forall>f\<in>set pre. fst f \<noteq> 4)"
  have l: "length [0, 1, 2, 3 :: nat] = 4" by simp
  have "\<exists>d'. discovery_loop ([0, 1, 2, 3] @ 4 # []) ?s
      = Inr (?s\<lparr>dev := d', dead_pixels := Some (where_lt (crop raw) 100)\<rparr>)"
    using discovery_loop_found [of "[0, 1, 2, 3]" ?s pre raw post "4 # []", unfolded l] a
    by (simp del: attempts.simps)
  then show "\<exists>d'. SeekPro_init (Some d) =
         Inr \<lparr>dev = d', calib = None, dead_pixels = Some (where_lt (crop raw) 100),
              printed = []\<rparr>"
    by (simp add: SeekPro_init_def range5)
  from a have "(4, Some raw) \<in> set (attempts 4 d)" by simp
  then have "length raw = RAW_HEIGHT \<and> (\<forall>row\<in>set raw. length row = RAW_WIDTH)"
    by (rule attempts_frame_shape)
  then show "where_lt (crop raw) 100 =
        filter (\<lambda>(i, j). raw ! (4 + i) ! (1 + j) < 100) (List.product [0..<240] [0..<320])"
    by (simp add: dead_list_of_frame del: upt_rec_numeral)
next
  let ?s = "\<lparr>dev = d, calib = None, dead_pixels = None, printed = []\<rparr>"
  assume a: "length (attempts 4 d) = 4 \<and> (\<forall>f\<in>set (attempts 4 d). fst f \<noteq> 4)"
  have l: "length [0, 1, 2, 3 :: nat] = 4" by simp
  have "\<exists>d'. discovery_loop ([0, 1, 2, 3] @ 4 # []) ?s
      = Inr (?s\<lparr>dev := d', dead_pixels := Some [],
                printed := printed ?s @ [''Could not get the dead pixels frame!'']\<rparr>)"
    using discovery_loop_gives_up [of "[0, 1, 2, 3]" ?s "[]", unfolded l] a
    by (simp del: attempts.simps)
  then show "\<exists>d'. SeekPro_init (Some d) =
         Inr \<lparr>dev = d', calib = None, dead_pixels = Some [],
              printed = [''Could not get the dead pixels frame!'']\<rparr>"
    by (simp add: SeekPro_init_def range5)
next
  assume "SeekPro_init (Some d) = Inr s"
  then have "discovery_loop [0..<5] \<lparr>dev = d, calib = None, dead_pixels = None, printed = []\<rparr>
      = Inr s"
    by (simp add: SeekPro_init_def)
  from discovery_loop_log [OF this]
  obtain k where "k \<le> length (takeWhile (\<lambda>i. i \<noteq> 4) [0..<5])"
    and e: "sent (dev s) = sent d @
         concat (replicate k
           (init_sequence @ [(START_GET_IMAGE_TRANSFER, [0x58, 0x5b, 0x01, 0x00])]))"
    by auto
  then have "k \<le> 4" by (simp add: range5)
  with e show "\<exists>k\<le>4. sent (dev s) = sent d @
         concat (replicate k
           (init_sequence @ [(START_GET_IMAGE_TRANSFER, [0x58, 0x5b, 0x01, 0x00])]))"
    by blast
qed

lemma four_Suc: "(4 :: nat) = Suc (Suc (Suc (Suc 0)))"
  by simp

lemma five_Suc: "(5 :: nat) = Suc (Suc (Suc (Suc (Suc 0))))"
  by simp

lemma attempts_replay:
  "attempts (Suc n) (replay log (buffer_of st v 177840 # bufs)) =
     (st, Some (rows_of RAW_HEIGHT RAW_WIDTH (pairs_u16 (buffer_of st v 177840)))) #
     attempts n (replay (log @ init_sequence @ [(START_GET_IMAGE_TRANSFER, [0x58, 0x5b, 0x01, 0x00])]) bufs)"
  by (simp add: attempt_replay)

lemma attempts_replay_empty: "attempts (Suc n) (replay log []) = []"
  by (simp add: attempt_replay_empty)

lemma frame_sample:
  assumes "length bs = 177840" and "i < 260" and "j < 342"
  shows "rows_of RAW_HEIGHT RAW_WIDTH (pairs_u16 bs) ! i ! j =
           ucast (bs ! (2 * (i * 342 + j))) OR push_bit 8 (ucast (bs ! (2 * (i * 342 + j) + 1)))"
proof -
  have "Suc i * 342 \<le> 260 * 342" using assms(2) by (intro mult_le_mono1) simp
  then have b: "i * 342 + j < 88920" using assms(3) by simp
  then have "rows_of RAW_HEIGHT RAW_WIDTH (pairs_u16 bs) ! i ! j = pairs_u16 bs ! (i * 342 + j)"
    using assms by (simp add: rows_of_nth RAW_HEIGHT_def RAW_WIDTH_def length_pairs_u16)
  also have "\<dots> = ucast (bs ! (2 * (i * 342 + j))) OR push_bit 8 (ucast (bs ! (2 * (i * 342 + j) + 1)))"
    by (rule pairs_u16_nth) (use b assms(1) in simp)
  finally show ?thesis .
qed

lemma blank_frame_dead:
  "(0, 0) \<in> set (where_lt (crop (rows_of RAW_HEIGHT RAW_WIDTH (pairs_u16 (buffer_of st 0 177840)))) 100)"
proof -
  let ?b = "buffer_of st 0 177840"
  let ?f = "rows_of RAW_HEIGHT RAW_WIDTH (pairs_u16 ?b)"
  have l: "length ?b = 177840" by (simp add: length_buffer_of)
  have h: "length ?f = RAW_HEIGHT" and w: "\<forall>row\<in>set ?f. length row = RAW_WIDTH"
    using grab_frame_shape [OF l] by (simp_all add: RAW_HEIGHT_def RAW_WIDTH_def)
  have "?f ! 4 ! 1 = ucast (?b ! (2 * (4 * 342 + 1))) OR push_bit 8 (ucast (?b ! (2 * (4 * 342 + 1) + 1)))"
    by (rule frame_sample [OF l]) simp_all
  also have "\<dots> = 0" by (simp add: buffer_of_def nth_append)
  finally have "?f ! 4 ! 1 = 0" .
  moreover have "crop ?f ! 0 ! 0 = ?f ! (4 + 0) ! (1 + 0)"
    by (rule crop_nth [OF h w]) simp_all
  ultimately have "crop ?f ! 0 ! 0 < 100" by simp
  moreover have "length (crop ?f) = 240" "length (crop ?f ! 0) = 320"
    using crop_shape [OF h w] by simp_all
  ultimately show ?thesis by (simp add: where_lt_bounds)
qed

theorem discovery_four_attempts_witness:
  "(\<exists>d'. SeekPro_init (Some (mock [buffer_of 3 0 177840, buffer_of 3 0 177840, buffer_of 4 0 177840])) =
      Inr \<lparr>dev = d', calib = None,
           dead_pixels = Some (where_lt
             (crop (rows_of RAW_HEIGHT RAW_WIDTH (pairs_u16 (buffer_of 4 0 177840)))) 100),
           printed = []\<rparr>) \<and>
   (0, 0) \<in> set (where_lt
             (crop (rows_of RAW_HEIGHT RAW_WIDTH (pairs_u16 (buffer_of 4 0 177840)))) 100) \<and>
   (\<exists>d'. SeekPro_init (Some (mock [buffer_of 3 0 177840, buffer_of 3 0 177840,
                                   buffer_of 3 0 177840, buffer_of 3 0 177840])) =
      Inr \<lparr>dev = d', calib = None, dead_pixels = Some [],
           printed = [''Could not get the dead pixels frame!'']\<rparr>)"
proof -
  let ?n = "rows_of RAW_HEIGHT RAW_WIDTH (pairs_u16 (buffer_of 3 0 177840))"
  let ?m = "rows_of RAW_HEIGHT RAW_WIDTH (pairs_u16 (buffer_of 4 0 177840))"
  let ?da = "mock [buffer_of 3 0 177840, buffer_of 3 0 177840, buffer_of 4 0 177840]"
  let ?db = "mock [buffer_of 3 0 177840, buffer_of 3 0 177840,
                   buffer_of 3 0 177840, buffer_of 3 0 177840]"
  have "attempts (Suc (Suc (Suc (Suc 0)))) ?da = [(3, Some ?n), (3, Some ?n)] @ (4, Some ?m) # []"
    by (simp add: mock_replay attempts_replay attempts_replay_empty del: attempts.simps(2))
  then have a: "attempts 4 ?da = [(3, Some ?n), (3, Some ?n)] @ (4, Some ?m) # []"
    by (simp only: four_Suc)
  have "attempts (Suc (Suc (Suc (Suc 0)))) ?db
      = [(3, Some ?n), (3, Some ?n), (3, Some ?n), (3, Some ?n)]"
    by (simp add: mock_replay attempts_replay del: attempts.simps(2))
  then have b: "attempts 4 ?db = [(3, Some ?n), (3, Some ?n), (3, Some ?n), (3, Some ?n)]"
    by (simp only: four_Suc)
  have p: "\<forall>f\<in>set [(3 :: byte, Some ?n), (3, Some ?n)]. fst f \<noteq> 4" by simp
  have q: "length (attempts 4 ?db) = 4 \<and> (\<forall>f\<in>set (attempts 4 ?db). fst f \<noteq> 4)"
    by (simp only: b) simp
  from discovery_four_attempts [of ?da "[(3, Some ?n), (3, Some ?n)]" ?m "[]"] a p
  have "\<exists>d'. SeekPro_init (Some ?da) =
      Inr \<lparr>dev = d', calib = None, dead_pixels = Some (where_lt (crop ?m) 100), printed = []\<rparr>"
    by blast
  moreover from discovery_four_attempts [of ?db] q
  have "\<exists>d'. SeekPro_init (Some ?db) =
      Inr \<lparr>dev = d', calib = None, dead_pixels = Some [],
           printed = [''Could not get the dead pixels frame!'']\<rparr>"
    by blast
  ultimately show ?thesis using blank_frame_dead [of 4] by blast
qed

theorem discovery_fifth_attempt_counterexample:
  "(\<exists>d'. SeekPro_init (Some (mock [buffer_of 3 0 177840, buffer_of 3 0 177840,
             buffer_of 3 0 177840, buffer_of 3 0 177840, buffer_of 4 0 177840])) =
      Inr \<lparr>dev = d', calib = None, dead_pixels = Some [],
           printed = [''Could not get the dead pixels frame!'']\<rparr>) \<and>
   attempts 5 (mock [buffer_of 3 0 177840, buffer_of 3 0 177840,
             buffer_of 3 0 177840, buffer_of 3 0 177840, buffer_of 4 0 177840]) =
     [(3, Some (rows_of RAW_HEIGHT RAW_WIDTH (pairs_u16 (buffer_of 3 0 177840)))),
      (3, Some (rows_of RAW_HEIGHT RAW_WIDTH (pairs_u16 (buffer_of 3 0 177840)))),
      (3, Some (rows_of RAW_HEIGHT RAW_WIDTH (pairs_u16 (buffer_of 3 0 177840)))),
      (3, Some (rows_of RAW_HEIGHT RAW_WIDTH (pairs_u16 (buffer_of 3 0 177840)))),
      (4, Some (rows_of RAW_HEIGHT RAW_WIDTH (pairs_u16 (buffer_of 4 0 177840))))] \<and>
   (0, 0) \<in> set (where_lt
             (crop (rows_of RAW_HEIGHT RAW_WIDTH (pairs_u16 (buffer_of 4 0 177840)))) 100)"
proof -
  let ?n = "rows_of RAW_HEIGHT RAW_WIDTH (pairs_u16 (buffer_of 3 0 177840))"
  let ?m = "rows_of RAW_HEIGHT RAW_WIDTH (pairs_u16 (buffer_of 4 0 177840))"
  let ?da = "mock [buffer_of 3 0 177840, buffer_of 3 0 177840,
             buffer_of 3 0 177840, buffer_of 3 0 177840, buffer_of 4 0 177840]"
  let ?s = "\<lparr>dev = ?da, calib = None, dead_pixels = None, printed = []\<rparr>"
  have "attempts (Suc (Suc (Suc (Suc (Suc 0))))) ?da
      = [(3, Some ?n), (3, Some ?n), (3, Some ?n), (3, Some ?n), (4, Some ?m)]"
    by (simp add: mock_replay attempts_replay del: attempts.simps(2))
  then have five: "attempts 5 ?da
      = [(3, Some ?n), (3, Some ?n), (3, Some ?n), (3, Some ?n), (4, Some ?m)]"
    by (simp only: five_Suc)
  have "attempts (Suc (Suc (Suc (Suc 0)))) ?da
      = [(3, Some ?n), (3, Some ?n), (3, Some ?n), (3, Some ?n)]"
    by (simp add: mock_replay attempts_replay del: attempts.simps(2))
  then have four: "attempts 4 ?da = [(3, Some ?n), (3, Some ?n), (3, Some ?n), (3, Some ?n)]"
    by (simp only: four_Suc)
  have l: "length [0, 1, 2, 3 :: nat] = 4" by simp
  have "\<exists>d'. discovery_loop ([0, 1, 2, 3] @ 4 # []) ?s
      = Inr (?s\<lparr>dev := d', dead_pixels := Some [],
                printed := printed ?s @ [''Could not get the dead pixels frame!'']\<rparr>)"
    using discovery_loop_gives_up [of "[0, 1, 2, 3]" ?s "[]", unfolded l]
    by (simp add: four del: attempts.simps)
  then have "\<exists>d'. SeekPro_init (Some ?da) =
      Inr \<lparr>dev = d', calib = None, dead_pixels = Some [],
           printed = [''Could not get the dead pixels frame!'']\<rparr>"
    by (simp add: SeekPro_init_def range5)
  with five blank_frame_dead [of 4] show ?thesis by blast
qed

section \<open>The calibration reference\<close>

lemma inverse_crop_shape:
  "length (inverse_crop border pattern) = RAW_HEIGHT"
  "\<forall>row\<in>set (inverse_crop border pattern). length row = RAW_WIDTH"
  by (auto simp: inverse_crop_def)

lemma crop_inverse_crop:
  assumes h: "length pattern = HEIGHT" and w: "\<forall>row\<in>set pattern. length row = WIDTH"
  shows "crop (inverse_crop border pattern) = pattern"
proof (rule nth_equalityI)
  let ?x = "inverse_crop border pattern"
  note sh = inverse_crop_shape [of border pattern]
  show l: "length (crop ?x) = length pattern"
    using crop_frame_shape(1) [OF sh] h by simp
  fix i
  assume "i < length (crop ?x)"
  with l h have i: "i < 240" by (simp add: HEIGHT_def)
  with h have "pattern ! i \<in> set pattern" by (simp add: HEIGHT_def)
  with w have wi: "length (pattern ! i) = 320" by (simp add: WIDTH_def)
  show "crop ?x ! i = pattern ! i"
  proof (rule nth_equalityI)
    from i l h have "crop ?x ! i \<in> set (crop ?x)" by (simp add: HEIGHT_def)
    with crop_frame_shape(2) [OF sh] wi show l2: "length (crop ?x ! i) = length (pattern ! i)"
      by (simp add: WIDTH_def)
    fix j
    assume "j < length (crop ?x ! i)"
    with l2 wi have j: "j < 320" by simp
    have "crop ?x ! i ! j = ?x ! (4 + i) ! (1 + j)"
      using sh i j by (rule crop_nth)
    also have "\<dots> = pattern ! i ! j"
      using i j by (simp add: inverse_crop_def RAW_HEIGHT_def RAW_WIDTH_def HEIGHT_def WIDTH_def
          del: upt_rec_numeral)
    finally show "crop ?x ! i ! j = pattern ! i ! j" .
  qed
qed

lemma sub_add_row:
  "length p = length c \<Longrightarrow> map2 (-) (map2 (+) p c) c = (p :: sample list)"
  by (induction p c rule: list_induct2) simp_all

lemma sub_add_grid:
  "length a = length b \<Longrightarrow> \<forall>(p, c)\<in>set (zip a b). length p = length c \<Longrightarrow>
   sub_grid (add_grid a b) b = a"
  by (induction a b rule: list_induct2) (simp_all add: sub_grid_def add_grid_def sub_add_row)

lemma same_shape_zip:
  assumes "length a = h" and "length b = h"
    and "\<forall>row\<in>set a. length row = w" and "\<forall>row\<in>set b. length row = w"
  shows "\<forall>(p, c)\<in>set (zip a b). length p = length c"
proof (intro ballI, clarify)
  fix p c
  assume "(p, c) \<in> set (zip a b)"
  then have "p \<in> set a" "c \<in> set b" by (auto dest: set_zip_leftD set_zip_rightD)
  with assms(3,4) show "length p = length c" by simp
qed

lemma add_grid_shape:
  assumes "length a = h" and "length b = h"
    and "\<forall>row\<in>set a. length row = w" and "\<forall>row\<in>set b. length row = w"
  shows "length (add_grid a b) = h" and "\<forall>row\<in>set (add_grid a b). length row = w"
proof -
  show "length (add_grid a b) = h" using assms(1,2) by (simp add: add_grid_def)
  show "\<forall>row\<in>set (add_grid a b). length row = w"
  proof
    fix row
    assume "row \<in> set (add_grid a b)"
    then obtain x y where "(x, y) \<in> set (zip a b)" "row = map2 (+) x y"
      by (auto simp: add_grid_def)
    moreover from this(1) have "x \<in> set a" "y \<in> set b"
      by (auto dest: set_zip_leftD set_zip_rightD)
    ultimately show "length row = w" using assms(3,4) by simp
  qed
qed

lemma reference_sample:
  assumes "length raw = RAW_HEIGHT" and "\<forall>row\<in>set raw. length row = RAW_WIDTH"
    and "i < 240" and "j < 320"
  shows "sub_scalar (crop raw) 1600 ! i ! j = raw ! (4 + i) ! (1 + j) - 1600"
proof -
  have "length (crop raw) = 240" using crop_shape(1) [OF assms(1,2)] .
  moreover from this assms(3) have "crop raw ! i \<in> set (crop raw)" by simp
  with crop_shape(2) [OF assms(1,2)] have "length (crop raw ! i) = 320" by simp
  ultimately have "sub_scalar (crop raw) 1600 ! i ! j = crop raw ! i ! j - 1600"
    using assms(3,4) by (simp add: sub_scalar_nth)
  with crop_nth [OF assms] show ?thesis by simp
qed

lemma uniform_frame_sample:
  "rows_of RAW_HEIGHT RAW_WIDTH (pairs_u16 (buffer_of st v 177840)) ! 4 ! 1
     = ucast v OR push_bit 8 (ucast v)"
proof -
  let ?b = "buffer_of st v 177840"
  have l: "length ?b = 177840" by (simp add: length_buffer_of)
  have "rows_of RAW_HEIGHT RAW_WIDTH (pairs_u16 ?b) ! 4 ! 1
      = ucast (?b ! (2 * (4 * 342 + 1))) OR push_bit 8 (ucast (?b ! (2 * (4 * 342 + 1) + 1)))"
    by (rule frame_sample [OF l]) simp_all
  also have "\<dots> = ucast v OR push_bit 8 (ucast v)" by (simp add: buffer_of_def nth_append)
  finally show ?thesis .
qed

lemma uniform_reference_sample:
  "sub_scalar (crop (rows_of RAW_HEIGHT RAW_WIDTH (pairs_u16 (buffer_of st v 177840)))) 1600 ! 0 ! 0
     = (ucast v OR push_bit 8 (ucast v)) - 1600"
    "crop (rows_of RAW_HEIGHT RAW_WIDTH (pairs_u16 (buffer_of st v 177840))) ! 0 ! 0
     = ucast v OR push_bit 8 (ucast v)"
proof -
  let ?f = "rows_of RAW_HEIGHT RAW_WIDTH (pairs_u16 (buffer_of st v 177840))"
  have l: "length (buffer_of st v 177840) = 177840" by (simp add: length_buffer_of)
  have h: "length ?f = RAW_HEIGHT" and w: "\<forall>row\<in>set ?f. length row = RAW_WIDTH"
    using grab_frame_shape [OF l] by (simp_all add: RAW_HEIGHT_def RAW_WIDTH_def)
  have z: "?f ! (4 + 0) ! (1 + 0) = ?f ! 4 ! 1" by simp
  have "sub_scalar (crop ?f) 1600 ! 0 ! 0 = ?f ! (4 + 0) ! (1 + 0) - 1600"
    by (rule reference_sample [OF h w]) simp_all
  then show "sub_scalar (crop ?f) 1600 ! 0 ! 0 = (ucast v OR push_bit 8 (ucast v)) - 1600"
    by (simp only: z uniform_frame_sample)
  have "crop ?f ! 0 ! 0 = ?f ! (4 + 0) ! (1 + 0)"
    by (rule crop_nth [OF h w]) simp_all
  then show "crop ?f ! 0 ! 0 = ucast v OR push_bit 8 (ucast v)"
    by (simp only: z uniform_frame_sample)
qed

lemma uint_sub_1600:
  fixes x :: sample
  shows "uint (x - 1600) = (uint x - 1600) mod 65536"
    and "1600 \<le> x \<Longrightarrow> uint (x - 1600) = uint x - 1600"
proof -
  show m: "uint (x - 1600) = (uint x - 1600) mod 65536"
    by (simp add: uint_word_ariths)
  assume "1600 \<le> x"
  then have "1600 \<le> uint x" by (simp add: word_le_def)
  moreover have "uint x < 65536" using uint_bounded [of x] by simp
  ultimately show "uint (x - 1600) = uint x - 1600" by (simp add: m)
qed

text \<open>
  C5, as the code has it.  The reference stored on a calibration frame is the crop
  minus 1600 in the 16-bit unsigned arithmetic of the samples: each sample of it is
  the sample of the frame minus 1600 modulo \<open>2 ^ 16\<close>, which is the integer
  difference where the sample is at least 1600.  For a raw frame made of a 240 by 320
  pattern and any border, \<^verbatim>\<open>crop\<close> gives the pattern back, and when a reference was
  added to the pattern, \<^verbatim>\<open>crop\<close> followed by the subtraction of the reference gives
  the pattern back exactly, the sum and the difference both wrapping modulo
  \<open>2 ^ 16\<close>.
\<close>

theorem calibration_reference_modular:
  "(grab (dev s) = Inr ((1, Some raw), d') \<longrightarrow>
      get_image s = get_image (s\<lparr>dev := d', calib := Some (sub_scalar (crop raw) 1600)\<rparr>) \<and>
      (\<forall>i<240. \<forall>j<320.
         sub_scalar (crop raw) 1600 ! i ! j = raw ! (4 + i) ! (1 + j) - 1600 \<and>
         uint (sub_scalar (crop raw) 1600 ! i ! j)
           = (uint (raw ! (4 + i) ! (1 + j)) - 1600) mod 65536 \<and>
         (1600 \<le> raw ! (4 + i) ! (1 + j) \<longrightarrow>
            uint (sub_scalar (crop raw) 1600 ! i ! j) = uint (raw ! (4 + i) ! (1 + j)) - 1600))) \<and>
   (length pattern = HEIGHT \<and> (\<forall>row\<in>set pattern. length row = WIDTH) \<and>
    length reference = HEIGHT \<and> (\<forall>row\<in>set reference. length row = WIDTH) \<longrightarrow>
      crop (inverse_crop border pattern) = pattern \<and>
      sub_grid (crop (inverse_crop border (add_grid pattern reference))) reference = pattern)"
proof (intro conjI impI allI)
  assume g: "grab (dev s) = Inr ((1, Some raw), d')"
  then show "get_image s = get_image (s\<lparr>dev := d', calib := Some (sub_scalar (crop raw) 1600)\<rparr>)"
    by (rule get_image_calibration)
  fix i j :: nat
  assume i: "i < 240" and j: "j < 320"
  from grab_frame_present [OF g] i j
  show e: "sub_scalar (crop raw) 1600 ! i ! j = raw ! (4 + i) ! (1 + j) - 1600"
    by (intro reference_sample) simp_all
  show "uint (sub_scalar (crop raw) 1600 ! i ! j) = (uint (raw ! (4 + i) ! (1 + j)) - 1600) mod 65536"
    by (simp only: e uint_sub_1600(1))
  assume "1600 \<le> raw ! (4 + i) ! (1 + j)"
  then show "uint (sub_scalar (crop raw) 1600 ! i ! j) = uint (raw ! (4 + i) ! (1 + j)) - 1600"
    by (simp only: e uint_sub_1600(2))
next
  assume a: "length pattern = HEIGHT \<and> (\<forall>row\<in>set pattern. length row = WIDTH) \<and>
    length reference = HEIGHT \<and> (\<forall>row\<in>set reference. length row = WIDTH)"
  then show "crop (inverse_crop border pattern) = pattern"
    by (intro crop_inverse_crop) simp_all
  from a have p: "length pattern = HEIGHT" "\<forall>row\<in>set pattern. length row = WIDTH"
    and r: "length reference = HEIGHT" "\<forall>row\<in>set reference. length row = WIDTH"
    by simp_all
  from add_grid_shape [OF p(1) r(1) p(2) r(2)]
  have "length (add_grid pattern reference) = HEIGHT"
    "\<forall>row\<in>set (add_grid pattern reference). length row = WIDTH" .
  then have "crop (inverse_crop border (add_grid pattern reference)) = add_grid pattern reference"
    by (rule crop_inverse_crop)
  moreover have "sub_grid (add_grid pattern reference) reference = pattern"
    using p r same_shape_zip [OF p(1) r(1) p(2) r(2)] by (intro sub_add_grid) simp_all
  ultimately show "sub_grid (crop (inverse_crop border (add_grid pattern reference))) reference
      = pattern"
    by simp
qed

theorem calibration_reference_modular_witness:
  "get_image \<lparr>dev = mock [buffer_of 1 0 177840], calib = None, dead_pixels = Some [],
              printed = []\<rparr>
     = get_image \<lparr>dev = replay [(START_GET_IMAGE_TRANSFER, [0x58, 0x5b, 0x01, 0x00])] [],
                  calib = Some (sub_scalar (crop (rows_of RAW_HEIGHT RAW_WIDTH
                            (pairs_u16 (buffer_of 1 0 177840)))) 1600),
                  dead_pixels = Some [], printed = []\<rparr> \<and>
   sub_scalar (crop (rows_of RAW_HEIGHT RAW_WIDTH (pairs_u16 (buffer_of 1 0 177840)))) 1600 ! 0 ! 0
     = 63936 \<and>
   add_grid (replicate 240 (replicate 320 5)) (replicate 240 (replicate 320 65535))
     = replicate 240 (replicate 320 4) \<and>
   sub_grid (crop (inverse_crop []
       (add_grid (replicate 240 (replicate 320 5)) (replicate 240 (replicate 320 65535)))))
     (replicate 240 (replicate 320 65535)) = replicate 240 (replicate 320 5)"
proof -
  let ?f = "rows_of RAW_HEIGHT RAW_WIDTH (pairs_u16 (buffer_of 1 0 177840))"
  let ?sa = "\<lparr>dev = mock [buffer_of 1 0 177840], calib = None, dead_pixels = Some [],
              printed = []\<rparr>"
  let ?d = "replay [(START_GET_IMAGE_TRANSFER, [0x58, 0x5b, 0x01, 0x00])] []"
  let ?p = "replicate 240 (replicate 320 (5 :: sample))"
  let ?r = "replicate 240 (replicate 320 (65535 :: sample))"
  note t = calibration_reference_modular [of ?sa ?f ?d ?p ?r "[]"]
  have g: "grab (dev ?sa) = Inr ((1, Some ?f), ?d)"
    by (simp add: mock_replay grab_mock_buffer)
  have sh: "length ?p = HEIGHT \<and> (\<forall>row\<in>set ?p. length row = WIDTH) \<and>
    length ?r = HEIGHT \<and> (\<forall>row\<in>set ?r. length row = WIDTH)"
    by (simp add: HEIGHT_def WIDTH_def)
  from t [THEN conjunct1, rule_format, OF g, THEN conjunct1]
  have a: "get_image ?sa = get_image \<lparr>dev = ?d, calib = Some (sub_scalar (crop ?f) 1600),
                  dead_pixels = Some [], printed = []\<rparr>"
    by simp
  from t [THEN conjunct1, rule_format, OF g, THEN conjunct2, rule_format, of 0 0]
  have "sub_scalar (crop ?f) 1600 ! 0 ! 0 = ?f ! 4 ! 1 - 1600" by simp
  moreover have "?f ! 4 ! 1 = 0" by (simp only: uniform_frame_sample) simp
  ultimately have b: "sub_scalar (crop ?f) 1600 ! 0 ! 0 = 63936"
    by (simp only:) simp
  have c: "add_grid ?p ?r = replicate 240 (replicate 320 4)"
    by (simp add: add_grid_def zip_replicate)
  from t [THEN conjunct2, rule_format, OF sh, THEN conjunct2]
  have d: "sub_grid (crop (inverse_crop [] (add_grid ?p ?r))) ?r = ?p" .
  from a b c d show ?thesis by (simp only: simp_thms)
qed

theorem calibration_reference_counterexample:
  "sub_scalar (crop (rows_of RAW_HEIGHT RAW_WIDTH (pairs_u16 (buffer_of 1 0 177840)))) 1600 ! 0 ! 0
     = 63936 \<and>
   crop (rows_of RAW_HEIGHT RAW_WIDTH (pairs_u16 (buffer_of 1 0 177840))) ! 0 ! 0 = 0 \<and>
   uint (sub_scalar (crop (rows_of RAW_HEIGHT RAW_WIDTH (pairs_u16 (buffer_of 1 0 177840)))) 1600
           ! 0 ! 0)
     \<noteq> uint (crop (rows_of RAW_HEIGHT RAW_WIDTH (pairs_u16 (buffer_of 1 0 177840))) ! 0 ! 0) - 1600 \<and>
   crop (rows_of RAW_HEIGHT RAW_WIDTH (pairs_u16 (buffer_of 1 255 177840))) ! 0 ! 0 = 65535 \<and>
   sint (sub_scalar (crop (rows_of RAW_HEIGHT RAW_WIDTH (pairs_u16 (buffer_of 1 255 177840)))) 1600
           ! 0 ! 0)
     \<noteq> uint (crop (rows_of RAW_HEIGHT RAW_WIDTH (pairs_u16 (buffer_of 1 255 177840))) ! 0 ! 0) - 1600"
  by (simp add: uniform_reference_sample)

section \<open>The median of an odd number of samples\<close>

lemma median_odd: "odd (length xs) \<Longrightarrow> median xs = sort xs ! (length xs div 2)"
  by (simp add: median_def)

lemma filter_length_split:
  "length (filter P xs) = length (filter P (take k xs)) + length (filter P (drop k xs))"
proof -
  have "filter P xs = filter P (take k xs @ drop k xs)" by simp
  also have "\<dots> = filter P (take k xs) @ filter P (drop k xs)" by (rule filter_append)
  finally show ?thesis by simp
qed

lemma sorted_below_middle:
  fixes s :: "sample list"
  assumes "sorted s" and "k < length s"
  shows "length (filter (\<lambda>x. x < s ! k) s) \<le> k"
proof -
  have "filter (\<lambda>x. x < s ! k) (drop k s) = []"
  proof (simp add: filter_empty_conv, intro ballI)
    fix x
    assume "x \<in> set (drop k s)"
    then obtain n where n: "n < length (drop k s)" "x = drop k s ! n"
      by (auto simp: in_set_conv_nth)
    then have "x = s ! (k + n)" by simp
    moreover have "s ! k \<le> s ! (k + n)"
      using assms(1) n(1) by (intro sorted_nth_mono) simp_all
    ultimately show "\<not> x < s ! k" by simp
  qed
  then have "length (filter (\<lambda>x. x < s ! k) s) = length (filter (\<lambda>x. x < s ! k) (take k s))"
    using filter_length_split [of "\<lambda>x. x < s ! k" s k] by simp
  also have "\<dots> \<le> length (take k s)" by (rule length_filter_le)
  also have "\<dots> \<le> k" by simp
  finally show ?thesis .
qed

lemma sorted_above_middle:
  fixes s :: "sample list"
  assumes "sorted s" and "k < length s"
  shows "length (filter (\<lambda>x. s ! k < x) s) \<le> length s - Suc k"
proof -
  have "filter (\<lambda>x. s ! k < x) (take (Suc k) s) = []"
  proof (simp only: filter_empty_conv, intro ballI)
    fix x
    assume "x \<in> set (take (Suc k) s)"
    then obtain n where n: "n < length (take (Suc k) s)" "x = take (Suc k) s ! n"
      by (auto simp: in_set_conv_nth)
    then have "n \<le> k" "x = s ! n" by simp_all
    moreover from this(1) have "s ! n \<le> s ! k"
      using assms by (intro sorted_nth_mono) simp_all
    ultimately show "\<not> s ! k < x" by simp
  qed
  then have "length (filter (\<lambda>x. s ! k < x) s)
      = length (filter (\<lambda>x. s ! k < x) (drop (Suc k) s))"
    using filter_length_split [of "\<lambda>x. s ! k < x" s "Suc k"] by simp
  also have "\<dots> \<le> length (drop (Suc k) s)" by (rule length_filter_le)
  finally show ?thesis by simp
qed

lemma count_sort:
  fixes xs :: "sample list"
  shows "length (filter P (sort xs)) = length (filter P xs)"
  by (simp add: filter_sort)

lemma median_odd_counts:
  assumes "odd (length xs)"
  shows "length (filter (\<lambda>x. x < median xs) xs) \<le> length xs div 2"
    and "length (filter (\<lambda>x. median xs < x) xs) \<le> length xs div 2"
proof -
  let ?s = "sort xs" and ?k = "length xs div 2"
  have m: "median xs = ?s ! ?k" using assms by (rule median_odd)
  have k: "?k < length ?s" using assms by (cases "length xs") auto
  have s: "sorted ?s" by simp
  from sorted_below_middle [OF s k]
  show "length (filter (\<lambda>x. x < median xs) xs) \<le> ?k"
    by (simp only: m count_sort)
  have "length ?s - Suc ?k = ?k" using assms by (auto elim!: oddE)
  with sorted_above_middle [OF s k]
  show "length (filter (\<lambda>x. median xs < x) xs) \<le> ?k"
    by (simp only: m count_sort)
qed

lemma median_odd_unique:
  assumes o: "odd (length ys)"
    and lo: "length (filter (\<lambda>x. x < m) ys) \<le> length ys div 2"
    and hi: "length (filter (\<lambda>x. m < x) ys) \<le> length ys div 2"
  shows "median ys = m"
proof -
  let ?s = "sort ys" and ?k = "length ys div 2"
  have k: "?k < length ?s" using o by (cases "length ys") auto
  have n: "length ?s = Suc (2 * ?k)" using o by (auto elim!: oddE)
  have s: "sorted ?s" by simp
  have "\<not> m < ?s ! ?k"
  proof
    assume a: "m < ?s ! ?k"
    have "filter (\<lambda>x. m < x) (drop ?k ?s) = drop ?k ?s"
    proof (simp only: filter_id_conv, intro ballI)
      fix x
      assume "x \<in> set (drop ?k ?s)"
      then obtain i where i: "i < length (drop ?k ?s)" "x = drop ?k ?s ! i"
        by (auto simp: in_set_conv_nth)
      then have "x = ?s ! (?k + i)" by simp
      moreover have "?s ! ?k \<le> ?s ! (?k + i)"
        using s i(1) by (intro sorted_nth_mono) simp_all
      ultimately show "m < x" using a by simp
    qed
    then have "length (drop ?k ?s) \<le> length (filter (\<lambda>x. m < x) ?s)"
      using filter_length_split [of "\<lambda>x. m < x" ?s ?k] by simp
    then have "length ?s - ?k \<le> length (filter (\<lambda>x. m < x) ys)"
      by (simp only: count_sort length_drop)
    with n have "Suc ?k \<le> length (filter (\<lambda>x. m < x) ys)" by simp
    with hi show False by simp
  qed
  moreover have "\<not> ?s ! ?k < m"
  proof
    assume a: "?s ! ?k < m"
    have "filter (\<lambda>x. x < m) (take (Suc ?k) ?s) = take (Suc ?k) ?s"
    proof (simp only: filter_id_conv, intro ballI)
      fix x
      assume "x \<in> set (take (Suc ?k) ?s)"
      then obtain i where i: "i < length (take (Suc ?k) ?s)" "x = take (Suc ?k) ?s ! i"
        by (auto simp: in_set_conv_nth)
      then have "i \<le> ?k" "x = ?s ! i" by simp_all
      moreover from this(1) have "?s ! i \<le> ?s ! ?k"
        using s k by (intro sorted_nth_mono) simp_all
      ultimately show "x < m" using a by simp
    qed
    then have "length (take (Suc ?k) ?s) \<le> length (filter (\<lambda>x. x < m) ?s)"
      using filter_length_split [of "\<lambda>x. x < m" ?s "Suc ?k"] by simp
    then have "min (length ?s) (Suc ?k) \<le> length (filter (\<lambda>x. x < m) ys)"
      by (simp only: count_sort length_take)
    with n have "Suc ?k \<le> length (filter (\<lambda>x. x < m) ys)" by simp
    with lo show False by simp
  qed
  ultimately have "?s ! ?k = m" by simp
  with o show ?thesis by (simp add: median_odd)
qed

lemma count_map_mono:
  "\<forall>c\<in>set cs. P (g c) \<longrightarrow> P (f c) \<Longrightarrow>
   length (filter P (map g cs)) \<le> length (filter P (map f cs))"
  by (induction cs) auto

lemma median_replace_one:
  fixes f :: "'c \<Rightarrow> sample"
  assumes o: "odd (length cs)"
    and g: "\<forall>c\<in>set cs. c \<noteq> p \<longrightarrow> g c = f c"
    and p: "g p = median (map f cs)"
  shows "median (map g cs) = median (map f cs)"
proof (rule median_odd_unique)
  let ?m = "median (map f cs)"
  show "odd (length (map g cs))" using o by simp
  have "length (filter (\<lambda>x. x < ?m) (map g cs)) \<le> length (filter (\<lambda>x. x < ?m) (map f cs))"
    by (rule count_map_mono) (use g p in auto)
  also have "\<dots> \<le> length (map f cs) div 2"
    by (rule median_odd_counts) (use o in simp)
  finally show "length (filter (\<lambda>x. x < ?m) (map g cs)) \<le> length (map g cs) div 2" by simp
  have "length (filter (\<lambda>x. ?m < x) (map g cs)) \<le> length (filter (\<lambda>x. ?m < x) (map f cs))"
    by (rule count_map_mono) (use g p in auto)
  also have "\<dots> \<le> length (map f cs) div 2"
    by (rule median_odd_counts) (use o in simp)
  finally show "length (filter (\<lambda>x. ?m < x) (map g cs)) \<le> length (map g cs) div 2" by simp
qed

section \<open>A second pass of \<^verbatim>\<open>correct_dead_pix\<close>\<close>

lemma fix_pixel_other:
  assumes "fix_pixel img (i, j) = Inr img'" and "(r, c) \<noteq> (i, j)"
  shows "img' ! r ! c = img ! r ! c"
proof -
  from assms(1) have b: "i < length img" "j < length (img ! i)"
    and e: "img' = img[i := (img ! i)[j := median (window img i j)]]"
    by (auto simp: fix_pixel_def split: if_splits)
  show ?thesis
  proof (cases "r = i")
    case True
    with assms(2) have "c \<noteq> j" by simp
    with True b show ?thesis by (simp add: e)
  next
    case False
    then show ?thesis by (simp add: e)
  qed
qed

lemma fix_pixel_self:
  assumes "fix_pixel img (i, j) = Inr img'"
  shows "img' ! i ! j = median (window img i j)"
  using assms by (auto simp: fix_pixel_def split: if_splits)

lemma correct_dead_pix_frame:
  "correct_dead_pix ps img = Inr img' \<Longrightarrow> (r, c) \<notin> set ps \<Longrightarrow> img' ! r ! c = img ! r ! c"
proof (induction ps arbitrary: img)
  case Nil
  then show ?case by simp
next
  case (Cons p ps)
  obtain i j where p: "p = (i, j)" by (cases p)
  from Cons.prems(1) obtain img1 where f: "fix_pixel img p = Inr img1"
    and r: "correct_dead_pix ps img1 = Inr img'"
    by (auto split: sum.splits)
  from Cons.prems(2) p have "(r, c) \<noteq> (i, j)" "(r, c) \<notin> set ps" by auto
  with Cons.IH [OF r] fix_pixel_other [of img i j img1 r c] f p show ?case by simp
qed

lemma window_agree:
  assumes "length a = h" and "\<forall>row\<in>set a. length row = w"
    and "length b = h" and "\<forall>row\<in>set b. length row = w"
    and "\<forall>(r, c)\<in>set (neighbourhood h w i j). a ! r ! c = b ! r ! c"
  shows "window a i j = window b i j"
proof -
  have "map (\<lambda>(r, c). a ! r ! c) (neighbourhood h w i j)
      = map (\<lambda>(r, c). b ! r ! c) (neighbourhood h w i j)"
    by (rule map_cong [OF refl]) (use assms(5) in auto)
  then show ?thesis
    by (simp only: window_neighbourhood [OF assms(1,2)] window_neighbourhood [OF assms(3,4)])
qed

lemma fix_pixel_keeps_shape:
  assumes "fix_pixel img p = Inr img'"
    and "length img = h" and "\<forall>row\<in>set img. length row = w"
  shows "length img' = h" and "\<forall>row\<in>set img'. length row = w"
proof -
  from assms(1) have s: "map length img' = map length img" by (rule fix_pixel_shape)
  from same_shape_length [OF s] assms(2) show "length img' = h" by simp
  from rows_same_shape [OF s assms(3)] show "\<forall>row\<in>set img'. length row = w" .
qed

lemma correct_dead_pix_value:
  "correct_dead_pix ps img = Inr img' \<Longrightarrow>
   length img = h \<Longrightarrow> \<forall>row\<in>set img. length row = w \<Longrightarrow>
   distinct ps \<Longrightarrow>
   \<forall>p\<in>set ps. \<forall>q\<in>set ps. p \<noteq> q \<longrightarrow> q \<notin> set (neighbourhood h w (fst p) (snd p)) \<Longrightarrow>
   (i, j) \<in> set ps \<Longrightarrow>
   img' ! i ! j = median (window img i j)"
proof (induction ps arbitrary: img)
  case Nil
  then show ?case by simp
next
  case (Cons q ps)
  obtain r c where q: "q = (r, c)" by (cases q)
  from Cons.prems(1) obtain img1 where f: "fix_pixel img q = Inr img1"
    and run: "correct_dead_pix ps img1 = Inr img'"
    by (auto split: sum.splits)
  note sh1 = fix_pixel_keeps_shape [OF f Cons.prems(2,3)]
  show ?case
  proof (cases "(i, j) = q")
    case True
    with Cons.prems(4) have "(i, j) \<notin> set ps" by auto
    from correct_dead_pix_frame [OF run this] have "img' ! i ! j = img1 ! i ! j" .
    also from f True have "\<dots> = median (window img i j)"
      by (auto dest: fix_pixel_self)
    finally show ?thesis .
  next
    case False
    with Cons.prems(6) have m: "(i, j) \<in> set ps" by simp
    have "img' ! i ! j = median (window img1 i j)"
    proof (rule Cons.IH [OF run sh1])
      show "distinct ps" using Cons.prems(4) by simp
      show "\<forall>p\<in>set ps. \<forall>q\<in>set ps. p \<noteq> q \<longrightarrow> q \<notin> set (neighbourhood h w (fst p) (snd p))"
        using Cons.prems(5) by simp
      show "(i, j) \<in> set ps" by (rule m)
    qed
    moreover have "window img1 i j = window img i j"
    proof (rule window_agree [OF sh1 Cons.prems(2,3)], intro ballI, clarify)
      fix x y
      assume n: "(x, y) \<in> set (neighbourhood h w i j)"
      from Cons.prems(5) m False have "q \<notin> set (neighbourhood h w i j)"
        by (auto simp: q)
      with n q have "(x, y) \<noteq> (r, c)" by auto
      with f q show "img1 ! x ! y = img ! x ! y" by (auto dest: fix_pixel_other)
    qed
    ultimately show ?thesis by simp
  qed
qed

text \<open>
  C6, as the code has it.  Take an image of \<open>h\<close> rows of \<open>w\<close> samples and a list of
  distinct dead pixels within it, none of them in the window of another.  Both passes
  of \<^verbatim>\<open>correct_dead_pix\<close> succeed; neither changes a pixel outside the list; the first
  pass sets each listed pixel to the median of its window in the given image; and the
  second pass recomputes the same value for every listed pixel whose window has an
  odd number of samples (in the 240 by 320 image: the nine of a pixel off the
  border).
\<close>

theorem second_pass_same_on_odd_windows:
  assumes sh: "length img = h" "\<forall>row\<in>set img. length row = w"
    and inb: "\<forall>(i, j)\<in>set ps. i < h \<and> j < w"
    and dist: "distinct ps"
    and apart: "\<forall>p\<in>set ps. \<forall>q\<in>set ps. p \<noteq> q \<longrightarrow> q \<notin> set (neighbourhood h w (fst p) (snd p))"
  shows "\<exists>once twice.
           correct_dead_pix ps img = Inr once \<and> correct_dead_pix ps once = Inr twice \<and>
           (\<forall>r c. (r, c) \<notin> set ps \<longrightarrow>
              once ! r ! c = img ! r ! c \<and> twice ! r ! c = once ! r ! c) \<and>
           (\<forall>(i, j)\<in>set ps.
              once ! i ! j = median (window img i j) \<and>
              (odd (length (window img i j)) \<longrightarrow> twice ! i ! j = once ! i ! j))"
proof -
  have "\<forall>(i, j)\<in>set ps. i < length img \<and> j < length (img ! i)"
    using sh inb by auto
  then obtain once where o: "correct_dead_pix ps img = Inr once"
    and so: "map length once = map length img"
    using correct_dead_pix_total by blast
  have sh1: "length once = h" "\<forall>row\<in>set once. length row = w"
    using same_shape_length [OF so] rows_same_shape [OF so sh(2)] sh(1) by simp_all
  have "\<forall>(i, j)\<in>set ps. i < length once \<and> j < length (once ! i)"
    using sh1 inb by auto
  then obtain twice where t: "correct_dead_pix ps once = Inr twice"
    using correct_dead_pix_total by blast
  have frame: "\<forall>r c. (r, c) \<notin> set ps \<longrightarrow>
      once ! r ! c = img ! r ! c \<and> twice ! r ! c = once ! r ! c"
    using correct_dead_pix_frame [OF o] correct_dead_pix_frame [OF t] by blast
  have listed: "once ! i ! j = median (window img i j) \<and>
      (odd (length (window img i j)) \<longrightarrow> twice ! i ! j = once ! i ! j)"
    if m: "(i, j) \<in> set ps" for i j
  proof
    show v1: "once ! i ! j = median (window img i j)"
      by (rule correct_dead_pix_value [OF o sh dist apart m])
    have v2: "twice ! i ! j = median (window once i j)"
      by (rule correct_dead_pix_value [OF t sh1 dist apart m])
    show "odd (length (window img i j)) \<longrightarrow> twice ! i ! j = once ! i ! j"
    proof
      assume "odd (length (window img i j))"
      then have odd: "odd (length (neighbourhood h w i j))"
        by (simp add: window_neighbourhood [OF sh])
      have "median (map (\<lambda>(r, c). once ! r ! c) (neighbourhood h w i j))
          = median (map (\<lambda>(r, c). img ! r ! c) (neighbourhood h w i j))"
      proof (rule median_replace_one [where p = "(i, j)", OF odd])
        show "\<forall>c\<in>set (neighbourhood h w i j). c \<noteq> (i, j) \<longrightarrow>
            (case c of (r, c) \<Rightarrow> once ! r ! c) = (case c of (r, c) \<Rightarrow> img ! r ! c)"
        proof (intro ballI impI)
          fix c
          assume c: "c \<in> set (neighbourhood h w i j)" "c \<noteq> (i, j)"
          with apart m have "c \<notin> set ps" by force
          with frame show "(case c of (r, c) \<Rightarrow> once ! r ! c) = (case c of (r, c) \<Rightarrow> img ! r ! c)"
            by (cases c) simp
        qed
        show "(case (i, j) of (r, c) \<Rightarrow> once ! r ! c)
            = median (map (\<lambda>(r, c). img ! r ! c) (neighbourhood h w i j))"
          using v1 by (simp add: window_neighbourhood [OF sh])
      qed
      then have "median (window once i j) = median (window img i j)"
        by (simp only: window_neighbourhood [OF sh] window_neighbourhood [OF sh1])
      with v1 v2 show "twice ! i ! j = once ! i ! j" by simp
    qed
  qed
  from o t frame listed show ?thesis by blast
qed

theorem second_pass_corner_counterexample:
  "correct_dead_pix [(0, 0)]
     ((100 # 0 # replicate 318 0) # (0 # 10 # replicate 318 0) # replicate 238 (replicate 320 0))
     = Inr ((5 # 0 # replicate 318 0) # (0 # 10 # replicate 318 0) # replicate 238 (replicate 320 0)) \<and>
   correct_dead_pix [(0, 0)]
     ((5 # 0 # replicate 318 0) # (0 # 10 # replicate 318 0) # replicate 238 (replicate 320 0))
     = Inr ((2 # 0 # replicate 318 0) # (0 # 10 # replicate 318 0) # replicate 238 (replicate 320 0))"
  by (simp add: fix_pixel_def window_def slice_def median_def)

theorem second_pass_same_on_odd_windows_witness:
  "length (window (replicate 320 7 # (7 # 0 # replicate 318 7) # replicate 238 (replicate 320 7)) 1 1)
     = 9 \<and>
   (\<exists>once twice.
      correct_dead_pix [(1, 1), (1, 5)]
        (replicate 320 7 # (7 # 0 # replicate 318 7) # replicate 238 (replicate 320 7)) = Inr once \<and>
      correct_dead_pix [(1, 1), (1, 5)] once = Inr twice \<and>
      once ! 1 ! 1 = median (window
        (replicate 320 7 # (7 # 0 # replicate 318 7) # replicate 238 (replicate 320 7)) 1 1) \<and>
      twice ! 1 ! 1 = once ! 1 ! 1 \<and>
      twice ! 0 ! 0 = once ! 0 ! 0)"
proof -
  let ?img = "replicate 320 7 # (7 # 0 # replicate 318 7) # replicate 238 (replicate 320 (7 :: sample))"
  let ?ps = "[(1, 1), (1, 5 :: nat)] :: (nat \<times> nat) list"
  have h: "length ?img = 240" by simp
  have w: "\<forall>row\<in>set ?img. length row = 320" by simp
  have inb: "\<forall>(i, j)\<in>set ?ps. i < 240 \<and> j < 320" by simp
  have dist: "distinct ?ps" by simp
  have apart: "\<forall>p\<in>set ?ps. \<forall>q\<in>set ?ps. p \<noteq> q \<longrightarrow>
      q \<notin> set (neighbourhood 240 320 (fst p) (snd p))"
    by (simp add: neighbourhood_set)
  have n: "length (window ?img 1 1) = 9"
    by (simp add: window_neighbourhood [OF h w] neighbourhood_def)
  from second_pass_same_on_odd_windows [OF h w inb dist apart]
  obtain once twice where
    r: "correct_dead_pix ?ps ?img = Inr once" "correct_dead_pix ?ps once = Inr twice"
      "\<forall>r c. (r, c) \<notin> set ?ps \<longrightarrow> once ! r ! c = ?img ! r ! c \<and> twice ! r ! c = once ! r ! c"
      "\<forall>(i, j)\<in>set ?ps. once ! i ! j = median (window ?img i j) \<and>
         (odd (length (window ?img i j)) \<longrightarrow> twice ! i ! j = once ! i ! j)"
    by blast
  from r(4) have "once ! 1 ! 1 = median (window ?img 1 1) \<and>
      (odd (length (window ?img 1 1)) \<longrightarrow> twice ! 1 ! 1 = once ! 1 ! 1)"
    by simp
  with n have a: "once ! 1 ! 1 = median (window ?img 1 1)" "twice ! 1 ! 1 = once ! 1 ! 1"
    by simp_all
  from r(3) have b: "twice ! 0 ! 0 = once ! 0 ! 0" by simp
  from n r(1,2) a b show ?thesis by blast
qed

section \<open>What a session holds\<close>

lemma get_dead_pix_list_bounds:
  assumes "get_dead_pix_list ret = Inr dp"
  shows "\<forall>(i, j)\<in>set dp. i < HEIGHT \<and> j < WIDTH"
proof (intro ballI, clarify)
  fix i j
  assume m: "(i, j) \<in> set dp"
  from assms obtain arr where a: "ret = Some arr"
    by (cases ret) (simp_all add: get_dead_pix_list_def)
  with assms have l: "length (concat arr) = RAW_HEIGHT * RAW_WIDTH"
    and dp: "dp = where_lt (crop (rows_of RAW_HEIGHT RAW_WIDTH (concat arr))) 100"
    by (auto simp: get_dead_pix_list_def reshape_def split: if_splits)
  let ?raw = "rows_of RAW_HEIGHT RAW_WIDTH (concat arr)"
  note sh = crop_frame_shape [OF rows_of_shape [OF l]]
  from m dp have i: "i < length (crop ?raw)" and j: "j < length (crop ?raw ! i)"
    by (simp_all add: where_lt_bounds)
  from i sh(1) have "i < HEIGHT" by simp
  moreover from i have "crop ?raw ! i \<in> set (crop ?raw)" by simp
  with sh(2) j have "j < WIDTH" by simp
  ultimately show "i < HEIGHT \<and> j < WIDTH" ..
qed

lemma discovery_loop_session:
  "discovery_loop is s = Inr s' \<Longrightarrow>
   calib s' = calib s \<and>
   (4 \<in> set is \<longrightarrow> (\<exists>dp. dead_pixels s' = Some dp \<and> (\<forall>(i, j)\<in>set dp. i < HEIGHT \<and> j < WIDTH)))"
proof (induction "is" arbitrary: s)
  case Nil
  then show ?case by simp
next
  case (Cons i "is")
  show ?case
  proof (cases "i = 4")
    case True
    with Cons.prems show ?thesis by auto
  next
    case False
    with Cons.prems obtain d1 st ret d2 where
      n: "init (dev s) = Inr d1" and g: "grab d1 = Inr ((st, ret), d2)"
      by (auto split: sum.splits)
    show ?thesis
    proof (cases "st = 4")
      case True
      with Cons.prems False n g obtain dp where
        l: "get_dead_pix_list ret = Inr dp" and e: "s' = s\<lparr>dev := d2, dead_pixels := Some dp\<rparr>"
        by (auto split: sum.splits)
      from get_dead_pix_list_bounds [OF l] e show ?thesis by simp
    next
      case st: False
      with Cons.prems False n g have "discovery_loop is (s\<lparr>dev := d2\<rparr>) = Inr s'" by simp
      from Cons.IH [OF this] False show ?thesis by simp
    qed
  qed
qed

lemma SeekPro_init_session:
  assumes "SeekPro_init found = Inr s"
  shows "calib s = None"
    and "\<exists>dp. dead_pixels s = Some dp \<and> (\<forall>(i, j)\<in>set dp. i < HEIGHT \<and> j < WIDTH)"
proof -
  from assms obtain d where
    "discovery_loop [0..<5] \<lparr>dev = d, calib = None, dead_pixels = None, printed = []\<rparr> = Inr s"
    by (cases found) (simp_all add: SeekPro_init_def)
  from discovery_loop_session [OF this]
  show "calib s = None"
    and "\<exists>dp. dead_pixels s = Some dp \<and> (\<forall>(i, j)\<in>set dp. i < HEIGHT \<and> j < WIDTH)"
    by (simp_all add: range5)
qed

lemma get_image_delivers:
  assumes g: "grab (dev s) = Inr ((3, Some raw), d')"
    and c: "calib s = Some c" "length c = HEIGHT" "\<forall>row\<in>set c. length row = WIDTH"
    and dp: "dead_pixels s = Some dp" "\<forall>(i, j)\<in>set dp. i < HEIGHT \<and> j < WIDTH"
  shows "\<exists>out. get_image s = Inr (out, s\<lparr>dev := d'\<rparr>) \<and>
           correct_dead_pix dp (sub_grid (crop raw) c) = Inr out \<and>
           length out = HEIGHT \<and> (\<forall>row\<in>set out. length row = WIDTH)"
proof -
  let ?x = "sub_grid (crop raw) c"
  note cs = crop_frame_shape [OF grab_frame_present [OF g]]
  note xs = sub_grid_shape [OF cs(1) c(2) cs(2) c(3)]
  have "\<forall>(i, j)\<in>set dp. i < length ?x \<and> j < length (?x ! i)"
  proof (intro ballI, clarify)
    fix i j
    assume "(i, j) \<in> set dp"
    with dp(2) have i: "i < HEIGHT" and j: "j < WIDTH" by auto
    from i xs(1) have "?x ! i \<in> set ?x" by simp
    with xs(2) have "length (?x ! i) = WIDTH" by simp
    with i j xs(1) show "i < length ?x \<and> j < length (?x ! i)" by simp
  qed
  then obtain out where o: "correct_dead_pix dp ?x = Inr out"
    and s: "map length out = map length ?x"
    using correct_dead_pix_total by blast
  from same_shape_length [OF s] xs(1) have "length out = HEIGHT" by simp
  moreover from rows_same_shape [OF s xs(2)] have "\<forall>row\<in>set out. length row = WIDTH" .
  moreover from get_image_normal [OF g c(1) dp(1)] o
  have "get_image s = Inr (out, s\<lparr>dev := d'\<rparr>)" by simp
  ultimately show ?thesis using o by blast
qed


section \<open>No image before a calibration frame\<close>

text \<open>
  C2.  A session starts without a calibration reference.  In a round of
  \<^verbatim>\<open>get_image\<close>, a normal frame (status 3) that arrives while the reference is
  absent is discarded and the loop goes on; a calibration frame (status 1) sets the
  reference to its crop minus 1600 and the loop goes on; a normal frame that arrives
  with a reference \<open>c\<close> ends the call, which delivers its crop minus \<open>c\<close> with the dead
  pixels corrected, a 240 by 320 image.  So when a call that started without a
  reference returns an image, the frames grabbed by the call end with a calibration
  frame, frames of other status, and a normal frame, and the image is the crop of the
  normal frame minus the reference of that calibration frame.
\<close>

theorem get_image_needs_calibration:
  "(grab (dev s) = Inr ((3, img), d') \<and> calib s = None \<longrightarrow>
      get_image s = get_image (s\<lparr>dev := d'\<rparr>)) \<and>
   (grab (dev s) = Inr ((1, Some raw1), d') \<longrightarrow>
      get_image s = get_image (s\<lparr>dev := d', calib := Some (sub_scalar (crop raw1) 1600)\<rparr>)) \<and>
   (grab (dev s) = Inr ((3, Some raw), d') \<and>
    calib s = Some c \<and> length c = HEIGHT \<and> (\<forall>row\<in>set c. length row = WIDTH) \<and>
    dead_pixels s = Some dp \<and> (\<forall>(i, j)\<in>set dp. i < HEIGHT \<and> j < WIDTH) \<longrightarrow>
      (\<exists>out. get_image s = Inr (out, s\<lparr>dev := d'\<rparr>) \<and>
         correct_dead_pix dp (sub_grid (crop raw) c) = Inr out \<and>
         length out = HEIGHT \<and> (\<forall>row\<in>set out. length row = WIDTH))) \<and>
   (get_image s = Inr (delivered, s') \<and> calib s = None \<longrightarrow>
      (\<exists>pre cal post normal dps.
         grabs (dev s) = pre @ (1, Some cal) # post @ (3, Some normal) # grabs (dev s') \<and>
         (\<forall>f\<in>set post. fst f \<noteq> 1) \<and>
         dead_pixels s = Some dps \<and>
         correct_dead_pix dps (sub_grid (crop normal) (sub_scalar (crop cal) 1600)) = Inr delivered \<and>
         calib s' = Some (sub_scalar (crop cal) 1600))) \<and>
   (SeekPro_init found = Inr s \<longrightarrow>
      calib s = None \<and>
      (\<exists>dps. dead_pixels s = Some dps \<and> (\<forall>(i, j)\<in>set dps. i < HEIGHT \<and> j < WIDTH)))"
proof (intro conjI impI)
  assume "grab (dev s) = Inr ((3, img), d') \<and> calib s = None"
  then show "get_image s = get_image (s\<lparr>dev := d'\<rparr>)"
    by (simp add: get_image_uncalibrated)
next
  assume "grab (dev s) = Inr ((1, Some raw1), d')"
  then show "get_image s = get_image (s\<lparr>dev := d', calib := Some (sub_scalar (crop raw1) 1600)\<rparr>)"
    by (rule get_image_calibration)
next
  assume "grab (dev s) = Inr ((3, Some raw), d') \<and>
    calib s = Some c \<and> length c = HEIGHT \<and> (\<forall>row\<in>set c. length row = WIDTH) \<and>
    dead_pixels s = Some dp \<and> (\<forall>(i, j)\<in>set dp. i < HEIGHT \<and> j < WIDTH)"
  then show "\<exists>out. get_image s = Inr (out, s\<lparr>dev := d'\<rparr>) \<and>
         correct_dead_pix dp (sub_grid (crop raw) c) = Inr out \<and>
         length out = HEIGHT \<and> (\<forall>row\<in>set out. length row = WIDTH)"
    by (intro get_image_delivers) simp_all
next
  assume a: "get_image s = Inr (delivered, s') \<and> calib s = None"
  then obtain fs normal k dps where
    t: "grabs (dev s) = fs @ (3, Some normal) # grabs (dev s')" "(1, None) \<notin> set fs"
      "calib_after (calib s) fs = Some k" "dead_pixels s = Some dps"
      "correct_dead_pix dps (sub_grid (crop normal) k) = Inr delivered"
      "s' = s\<lparr>dev := dev s', calib := Some k\<rparr>"
    using get_image_trace [of s delivered s'] by blast
  from t(3) a have "calib_after None fs = Some k" by simp
  from calib_after_origin [OF this t(2)] obtain pre cal post where
    o: "fs = pre @ (1, Some cal) # post" "\<forall>f\<in>set post. fst f \<noteq> 1"
      "k = sub_scalar (crop cal) 1600"
    by blast
  have "grabs (dev s) = pre @ (1, Some cal) # post @ (3, Some normal) # grabs (dev s')"
    using t(1) o(1) by simp
  moreover have "calib s' = Some (sub_scalar (crop cal) 1600)"
    using o(3) by (subst t(6)) simp
  ultimately show "\<exists>pre cal post normal dps.
         grabs (dev s) = pre @ (1, Some cal) # post @ (3, Some normal) # grabs (dev s') \<and>
         (\<forall>f\<in>set post. fst f \<noteq> 1) \<and>
         dead_pixels s = Some dps \<and>
         correct_dead_pix dps (sub_grid (crop normal) (sub_scalar (crop cal) 1600)) = Inr delivered \<and>
         calib s' = Some (sub_scalar (crop cal) 1600)"
    using o(2,3) t(4,5) by blast
next
  assume i: "SeekPro_init found = Inr s"
  from SeekPro_init_session(1) [OF i] show "calib s = None" .
  from SeekPro_init_session(2) [OF i]
  show "\<exists>dps. dead_pixels s = Some dps \<and> (\<forall>(i, j)\<in>set dps. i < HEIGHT \<and> j < WIDTH)" .
qed

theorem get_image_needs_calibration_witness:
  "get_image \<lparr>dev = mock [buffer_of 3 0 177840, buffer_of 1 0 177840, buffer_of 3 0 177840],
              calib = None, dead_pixels = Some [], printed = []\<rparr>
     = Inr (sub_grid (crop (rows_of RAW_HEIGHT RAW_WIDTH (pairs_u16 (buffer_of 3 0 177840))))
              (sub_scalar (crop (rows_of RAW_HEIGHT RAW_WIDTH (pairs_u16 (buffer_of 1 0 177840)))) 1600),
            \<lparr>dev = replay [(START_GET_IMAGE_TRANSFER, [0x58, 0x5b, 0x01, 0x00]),
                           (START_GET_IMAGE_TRANSFER, [0x58, 0x5b, 0x01, 0x00]),
                           (START_GET_IMAGE_TRANSFER, [0x58, 0x5b, 0x01, 0x00])] [],
             calib = Some (sub_scalar
                (crop (rows_of RAW_HEIGHT RAW_WIDTH (pairs_u16 (buffer_of 1 0 177840)))) 1600),
             dead_pixels = Some [], printed = []\<rparr>) \<and>
   get_image \<lparr>dev = mock [buffer_of 3 0 177840], calib = None, dead_pixels = Some [],
              printed = []\<rparr> = Inl USBError"
proof -
  let ?m = "(START_GET_IMAGE_TRANSFER, [0x58, 0x5b, 0x01, 0x00 :: byte])"
  let ?n = "rows_of RAW_HEIGHT RAW_WIDTH (pairs_u16 (buffer_of 3 0 177840))"
  let ?c = "rows_of RAW_HEIGHT RAW_WIDTH (pairs_u16 (buffer_of 1 0 177840))"
  let ?k = "sub_scalar (crop ?c) 1600"
  let ?sa = "\<lparr>dev = replay [] [buffer_of 3 0 177840, buffer_of 1 0 177840, buffer_of 3 0 177840],
              calib = None, dead_pixels = Some [], printed = []\<rparr>"
  let ?sb = "\<lparr>dev = replay [?m] [buffer_of 1 0 177840, buffer_of 3 0 177840],
              calib = None, dead_pixels = Some [], printed = []\<rparr>"
  let ?sc = "\<lparr>dev = replay [?m, ?m] [buffer_of 3 0 177840],
              calib = Some ?k, dead_pixels = Some [], printed = []\<rparr>"
  let ?sd = "\<lparr>dev = replay [?m, ?m, ?m] [],
              calib = Some ?k, dead_pixels = Some [], printed = []\<rparr>"
  have a: "get_image ?sa = get_image ?sb"
    using get_image_needs_calibration
      [of ?sa "Some ?n" "replay [?m] [buffer_of 1 0 177840, buffer_of 3 0 177840]"]
    by (simp add: grab_mock_buffer)
  have b: "get_image ?sb = get_image ?sc"
    using get_image_needs_calibration
      [of ?sb _ "replay [?m, ?m] [buffer_of 3 0 177840]" ?c]
    by (simp add: grab_mock_buffer)
  have "length (buffer_of 1 0 177840) = 177840" by (simp add: length_buffer_of)
  from grab_frame_shape [OF this]
  have fc: "length ?c = RAW_HEIGHT" "\<forall>row\<in>set ?c. length row = RAW_WIDTH"
    by (simp_all add: RAW_HEIGHT_def RAW_WIDTH_def)
  have kh: "length ?k = HEIGHT"
    using crop_frame_shape(1) [OF fc] by (simp add: sub_scalar_shape(1))
  have kw: "\<forall>row\<in>set ?k. length row = WIDTH"
    using crop_frame_shape(2) [OF fc] by (rule sub_scalar_shape(2))
  have g: "grab (dev ?sc) = Inr ((3, Some ?n), replay [?m, ?m, ?m] [])"
    by (simp add: grab_mock_buffer)
  have "\<exists>out. get_image ?sc = Inr (out, ?sc\<lparr>dev := replay [?m, ?m, ?m] []\<rparr>) \<and>
      correct_dead_pix [] (sub_grid (crop ?n) ?k) = Inr out \<and>
      length out = HEIGHT \<and> (\<forall>row\<in>set out. length row = WIDTH)"
    by (rule get_image_needs_calibration
          [of ?sc _ "replay [?m, ?m, ?m] []" _ ?n ?k "[]",
           THEN conjunct2, THEN conjunct2, THEN conjunct1, rule_format])
       (use g kh kw in simp)
  then have c: "get_image ?sc = Inr (sub_grid (crop ?n) ?k, ?sd)" by auto
  let ?ta = "\<lparr>dev = replay [] [buffer_of 3 0 177840],
              calib = None, dead_pixels = Some [], printed = []\<rparr>"
  let ?tb = "\<lparr>dev = replay [?m] [], calib = None, dead_pixels = Some [], printed = []\<rparr>"
  have d: "get_image ?ta = get_image ?tb"
    using get_image_needs_calibration [of ?ta "Some ?n" "replay [?m] []"]
    by (simp add: grab_mock_buffer)
  have e: "get_image ?tb = Inl USBError"
    by (rule get_image_error) (simp add: grab_replay_empty)
  from a b c d e show ?thesis by (simp add: mock_replay)
qed

end
